theory Spec2Isabelle
  imports Main "HOL-Library.Word"
begin

unbundle bit_operations_syntax

section \<open>Digits and the seven primitive operations\<close>

text \<open>
  The library is configured with \<^verbatim>\<open>digit_t = std::uint32_t\<close> and
  \<^verbatim>\<open>ddigit_t = std::uint64_t\<close> (the defaults of \<^verbatim>\<open>bignum.h\<close>). Sizes and
  indices (\<^verbatim>\<open>std::size_t\<close>) are natural numbers: a digit store that can be allocated
  never reaches the range where they would wrap.
\<close>

type_synonym digit_t = "32 word"
type_synonym ddigit_t = "64 word"

abbreviation bitsPerDigit :: nat where
  "bitsPerDigit \<equiv> 32"

abbreviation maxDecDigitsPerDigit :: nat where
  "maxDecDigitsPerDigit \<equiv> 9"

abbreviation maxPow10PerDigit :: digit_t where
  "maxPow10PerDigit \<equiv> 1000000000"

text \<open>The exceptions of the library, and a failed \<^verbatim>\<open>assert\<close>.\<close>

datatype error = invalid_argument | logic_error | overflow_error | assert_failure

text \<open>\<^verbatim>\<open>addCarry(a, b, carry)\<close>: the digit returned and the new carry flag.\<close>

definition addCarry :: "digit_t \<Rightarrow> digit_t \<Rightarrow> bool \<Rightarrow> digit_t \<times> bool" where
  "addCarry a b carry =
     (let dd = (ucast a :: ddigit_t) + ucast b + (if carry then 1 else 0)
      in (ucast dd, drop_bit bitsPerDigit dd \<noteq> 0))"

text \<open>\<^verbatim>\<open>subBorrow(a, b, borrow)\<close>: the subtraction wraps in the double digit.\<close>

definition subBorrow :: "digit_t \<Rightarrow> digit_t \<Rightarrow> bool \<Rightarrow> digit_t \<times> bool" where
  "subBorrow a b borrow =
     (let dd = (ucast a :: ddigit_t) - ucast b - (if borrow then 1 else 0)
      in (ucast dd, drop_bit bitsPerDigit dd \<noteq> 0))"

text \<open>\<^verbatim>\<open>multiplyAdd(a, b, carry)\<close>: the low digit of \<open>a*b + carry\<close> and the new carry.\<close>

definition multiplyAdd :: "digit_t \<Rightarrow> digit_t \<Rightarrow> digit_t \<Rightarrow> digit_t \<times> digit_t" where
  "multiplyAdd a b carry =
     (let dd = (ucast a :: ddigit_t) * ucast b + ucast carry
      in (ucast dd, ucast (drop_bit bitsPerDigit dd)))"

definition multiplyAdd2 :: "digit_t \<Rightarrow> digit_t \<Rightarrow> digit_t \<Rightarrow> digit_t \<Rightarrow> digit_t \<times> digit_t" where
  "multiplyAdd2 a b c carry =
     (let dd = (ucast a :: ddigit_t) * ucast b + ucast c + ucast carry
      in (ucast dd, ucast (drop_bit bitsPerDigit dd)))"

text \<open>
  \<^verbatim>\<open>divideRemainder(a, b, remainder)\<close>: the quotient digit and the new remainder.
  Every caller passes a non-zero \<open>b\<close> (the callers below check it first).
\<close>

definition divideRemainder :: "digit_t \<Rightarrow> digit_t \<Rightarrow> digit_t \<Rightarrow> digit_t \<times> digit_t" where
  "divideRemainder a b remainder =
     (let dd = push_bit bitsPerDigit (ucast remainder :: ddigit_t) OR ucast a
      in (ucast (dd div ucast b), ucast (dd mod ucast b)))"

text \<open>
  \<^verbatim>\<open>countLeadingZeroes<T>(val)\<close> for a 32-bit \<open>T\<close>: the loop runs with
  \<open>i = 16, 8, 4, 2, 1\<close>; its state is the mask, the shifted value and the count.
\<close>

definition clz_step :: "nat \<Rightarrow> digit_t \<times> digit_t \<times> nat \<Rightarrow> digit_t \<times> digit_t \<times> nat" where
  "clz_step i s =
     (case s of (msk, v, ret) \<Rightarrow>
        let msk' = push_bit i msk
        in if v AND msk' = 0 then (msk', push_bit i v, ret + i) else (msk', v, ret))"

definition countLeadingZeroes :: "digit_t \<Rightarrow> nat" where
  "countLeadingZeroes v =
     (if v = 0 then 32
      else snd (snd (fold clz_step [16, 8, 4, 2, 1] (NOT 0, v, 0))))"

definition ctz_step :: "nat \<Rightarrow> digit_t \<times> digit_t \<times> nat \<Rightarrow> digit_t \<times> digit_t \<times> nat" where
  "ctz_step i s =
     (case s of (msk, v, ret) \<Rightarrow>
        let msk' = drop_bit i msk
        in if v AND msk' = 0 then (msk', drop_bit i v, ret + i) else (msk', v, ret))"

definition countTrailingZeroes :: "digit_t \<Rightarrow> nat" where
  "countTrailingZeroes v =
     (if v = 0 then 32
      else snd (snd (fold ctz_step [16, 8, 4, 2, 1] (NOT 0, v, 0))))"

section \<open>Natural numbers: \<^verbatim>\<open>class Unsigned\<close>\<close>

text \<open>
  An \<^verbatim>\<open>Unsigned\<close> is its digit store: the digits, least significant first. The
  library keeps the most significant digit non-zero; the empty store is zero.
\<close>

type_synonym Unsigned = "digit_t list"

text \<open>The value of a digit store: \<open>\<Sum> digit[i] * base ^ i\<close>, with \<open>base = 2 ^ 32\<close>.\<close>

definition base :: nat where
  "base = 2 ^ bitsPerDigit"

fun nat_of :: "Unsigned \<Rightarrow> nat" where
  "nat_of [] = 0"
| "nat_of (d # ds) = unat d + base * nat_of ds"

definition normalized :: "Unsigned \<Rightarrow> bool" where
  "normalized u = (if u = [] then True else last u \<noteq> 0)"

text \<open>\<^verbatim>\<open>initFromIntegral\<close> at \<^verbatim>\<open>std::uint32_t\<close> and at \<^verbatim>\<open>std::uint64_t\<close>.\<close>

definition Unsigned_uint32 :: "32 word \<Rightarrow> Unsigned" where
  "Unsigned_uint32 i = (if i = 0 then [] else [i])"

definition Unsigned_uint64 :: "64 word \<Rightarrow> Unsigned" where
  "Unsigned_uint64 i =
     (if i = 0 then []
      else if drop_bit 32 i = 0 then [ucast i]
      else [ucast i, ucast (drop_bit 32 i)])"

text \<open>\<^verbatim>\<open>removeLeadingZeroDigits\<close>.\<close>

fun removeLeadingZeroDigits_loop :: "nat \<Rightarrow> Unsigned \<Rightarrow> nat" where
  "removeLeadingZeroDigits_loop 0 u = 0"
| "removeLeadingZeroDigits_loop (Suc n) u =
     (if u ! n = 0 then removeLeadingZeroDigits_loop n u else Suc n)"

definition removeLeadingZeroDigits :: "Unsigned \<Rightarrow> Unsigned" where
  "removeLeadingZeroDigits u = take (removeLeadingZeroDigits_loop (length u) u) u"

text \<open>
  \<^verbatim>\<open>Store::resize\<close> keeps the first digits. The digits it adds are unspecified in
  the source, and every algorithm writes them before it reads them; here they are 0.
\<close>

definition resize :: "nat \<Rightarrow> Unsigned \<Rightarrow> Unsigned" where
  "resize newsize d = take newsize d @ replicate (newsize - length d) 0"

text \<open>\<^verbatim>\<open>Unsigned::countLeadingZeroes\<close>, \<^verbatim>\<open>bits\<close> and \<^verbatim>\<open>ctz\<close>.\<close>

definition Unsigned_countLeadingZeroes :: "Unsigned \<Rightarrow> nat" where
  "Unsigned_countLeadingZeroes u =
     (let n = length u in if n = 0 then 0 else countLeadingZeroes (u ! (n - 1)))"

definition Unsigned_bits :: "Unsigned \<Rightarrow> nat" where
  "Unsigned_bits u = bitsPerDigit * length u - Unsigned_countLeadingZeroes u"

fun ctz_loop :: "Unsigned \<Rightarrow> nat \<Rightarrow> nat" where
  "ctz_loop [] ret = ret"
| "ctz_loop (d # ds) ret =
     (if d = 0 then ctz_loop ds (ret + bitsPerDigit) else ret + countTrailingZeroes d)"

definition Unsigned_ctz :: "Unsigned \<Rightarrow> nat" where
  "Unsigned_ctz u = ctz_loop u 0"

text \<open>
  \<^verbatim>\<open>addDigit\<close>. The loop \<^verbatim>\<open>for (i = 1; (i < n) && carry; ++i)\<close> is
  \<open>carry_loop\<close>; \<^verbatim>\<open>operator+=\<close> runs the same loop from \<open>m\<close>.
\<close>

function carry_loop :: "nat \<Rightarrow> nat \<Rightarrow> Unsigned \<Rightarrow> bool \<Rightarrow> Unsigned \<times> bool" where
  "carry_loop i n d carry =
     (if i < n \<and> carry
      then (case addCarry (d ! i) 0 carry of
              (x, c) \<Rightarrow> carry_loop (Suc i) n (d[i := x]) c)
      else (d, carry))"
  by pat_completeness auto
termination
  by (relation "measure (\<lambda>(i, n, d, carry). n - i)") auto

declare carry_loop.simps [simp del]

definition addDigit :: "digit_t \<Rightarrow> Unsigned \<Rightarrow> Unsigned" where
  "addDigit d u =
     (let n = length u in
      if n = 0 then (if d \<noteq> 0 then (resize 1 u)[0 := d] else u)
      else (case addCarry (u ! 0) d False of
              (x, c) \<Rightarrow>
                (case carry_loop 1 n (u[0 := x]) c of
                   (u', carry) \<Rightarrow>
                     if carry then (resize (n + 1) u')[n := 1] else u')))"

text \<open>\<^verbatim>\<open>subtractDigit\<close>, with the borrow loop that \<^verbatim>\<open>operator-=\<close> shares.\<close>

function borrow_loop :: "nat \<Rightarrow> nat \<Rightarrow> Unsigned \<Rightarrow> bool \<Rightarrow> Unsigned \<times> bool" where
  "borrow_loop i n d borrow =
     (if i < n \<and> borrow
      then (case subBorrow (d ! i) 0 borrow of
              (x, b) \<Rightarrow> borrow_loop (Suc i) n (d[i := x]) b)
      else (d, borrow))"
  by pat_completeness auto
termination
  by (relation "measure (\<lambda>(i, n, d, borrow). n - i)") auto

declare borrow_loop.simps [simp del]

definition subtractDigit :: "digit_t \<Rightarrow> Unsigned \<Rightarrow> error + Unsigned" where
  "subtractDigit d u =
     (let n = length u in
      if n = 0 \<or> (n = 1 \<and> u ! 0 < d) then Inl logic_error
      else (case subBorrow (u ! 0) d False of
              (x, b) \<Rightarrow>
                (case borrow_loop 1 n (u[0 := x]) b of
                   (u', borrow) \<Rightarrow> Inr (removeLeadingZeroDigits u'))))"

text \<open>\<^verbatim>\<open>multiplyByDigit\<close>.\<close>

definition multiplyByDigit :: "digit_t \<Rightarrow> Unsigned \<Rightarrow> Unsigned" where
  "multiplyByDigit d u =
     (let n = length u in
      case fold (\<lambda>i (w, carry).
                   case multiplyAdd (w ! i) d carry of (x, c) \<Rightarrow> (w[i := x], c))
             [0..<n] (u, 0) of
        (u', carry) \<Rightarrow>
          if carry \<noteq> 0 then (resize (n + 1) u')[n := carry] else u')"

text \<open>
  \<^verbatim>\<open>divideByDigitReturnRem\<close>: the quotient left in the number, and the remainder.
  The source asserts \<open>d \<noteq> 0\<close>, and reads \<^verbatim>\<open>digit[n - 1]\<close>, which the store
  asserts to be in range.
\<close>

definition divideByDigitReturnRem :: "digit_t \<Rightarrow> Unsigned \<Rightarrow> error + Unsigned \<times> digit_t" where
  "divideByDigitReturnRem d u =
     (if d = 0 then Inl assert_failure
      else if d = 1 then Inr (u, 0)
      else
        let n = length u in
        case fold (\<lambda>i (w, remainder).
                     case divideRemainder (w ! i) d remainder of
                       (x, r) \<Rightarrow> (w[i := x], r))
               (rev [0..<n]) (u, 0) of
          (u', remainder) \<Rightarrow>
            if n = 0 then Inl assert_failure
            else Inr (if u' ! (n - 1) = 0 then resize (n - 1) u' else u', remainder))"

text \<open>
  \<^verbatim>\<open>Unsigned::Unsigned(const char* dec)\<close>. The argument is the text before the
  terminating NUL. \<open>chunk_value\<close> is the loop over one chunk of at most nine
  characters, \<open>parse_loop\<close> the loop over the chunks.
\<close>

fun chunk_value :: "string \<Rightarrow> digit_t \<Rightarrow> error + digit_t" where
  "chunk_value [] add = Inr add"
| "chunk_value (c # cs) add =
     (if (of_char c :: nat) < 48 \<or> 57 < (of_char c :: nat) then Inl invalid_argument
      else chunk_value cs (10 * add + of_nat (of_char c - 48)))"

function parse_loop :: "string \<Rightarrow> Unsigned \<Rightarrow> error + Unsigned" where
  "parse_loop dec u =
     (if dec = [] then Inr u
      else
        let count = min (length dec) maxDecDigitsPerDigit;
            mul = (if count = maxDecDigitsPerDigit then maxPow10PerDigit else 10 ^ count);
            u1 = multiplyByDigit mul u
        in case chunk_value (take count dec) 0 of
             Inl e \<Rightarrow> Inl e
           | Inr add \<Rightarrow> parse_loop (drop count dec) (addDigit add u1))"
  by pat_completeness auto
termination
  by (relation "measure (\<lambda>(dec, u). length dec)") auto

declare parse_loop.simps [simp del]

definition Unsigned_string :: "string \<Rightarrow> error + Unsigned" where
  "Unsigned_string s =
     (let dec = takeWhile (\<lambda>c. (of_char c :: nat) \<noteq> 0) s in
      if dec = [] then Inl invalid_argument else parse_loop dec [])"

text \<open>
  \<^verbatim>\<open>Unsigned::str\<close>. \<open>dec_group\<close> is the loop that pushes the nine decimal digits
  of a remainder, \<open>str_loop\<close> the loop that divides, \<open>pop_zeros\<close> the loop
  \<^verbatim>\<open>while (s.back() == '0') s.pop_back()\<close>, which must not empty the string.
\<close>

fun dec_group :: "nat \<Rightarrow> digit_t \<Rightarrow> string" where
  "dec_group 0 md = []"
| "dec_group (Suc k) md = char_of (48 + unat (md mod 10)) # dec_group k (md div 10)"

partial_function (option) str_loop :: "Unsigned \<Rightarrow> string \<Rightarrow> (error + string) option" where
  "str_loop temp s =
     (if 0 < length temp
      then (case divideByDigitReturnRem maxPow10PerDigit temp of
              Inl e \<Rightarrow> Some (Inl e)
            | Inr (temp', md) \<Rightarrow> str_loop temp' (s @ dec_group maxDecDigitsPerDigit md))
      else Some (Inr s))"

declare str_loop.simps [code]

function pop_zeros :: "string \<Rightarrow> error + string" where
  "pop_zeros s =
     (if s = [] then Inl assert_failure
      else if last s = CHR ''0'' then pop_zeros (butlast s)
      else Inr s)"
  by pat_completeness auto
termination
  by (relation "measure length") auto

declare pop_zeros.simps [simp del]

definition Unsigned_str :: "Unsigned \<Rightarrow> (error + string) option" where
  "Unsigned_str u =
     (if length u = 0 then Some (Inr ''0'')
      else (case str_loop u [] of
              None \<Rightarrow> None
            | Some (Inl e) \<Rightarrow> Some (Inl e)
            | Some (Inr s) \<Rightarrow>
                (case pop_zeros s of Inl e \<Rightarrow> Some (Inl e) | Inr s' \<Rightarrow> Some (Inr (rev s')))))"

text \<open>\<^verbatim>\<open>operator<(const Unsigned&, const Unsigned&)\<close> and the comparisons built on it.\<close>

fun Unsigned_less_loop :: "nat \<Rightarrow> Unsigned \<Rightarrow> Unsigned \<Rightarrow> bool" where
  "Unsigned_less_loop 0 u v = False"
| "Unsigned_less_loop (Suc i) u v =
     (if u ! i = v ! i then Unsigned_less_loop i u v else u ! i < v ! i)"

definition Unsigned_less :: "Unsigned \<Rightarrow> Unsigned \<Rightarrow> bool" where
  "Unsigned_less u v =
     (if length u \<noteq> length v then length u < length v
      else Unsigned_less_loop (length u) u v)"

definition Unsigned_greater :: "Unsigned \<Rightarrow> Unsigned \<Rightarrow> bool" where
  "Unsigned_greater u v = Unsigned_less v u"

definition Unsigned_less_eq :: "Unsigned \<Rightarrow> Unsigned \<Rightarrow> bool" where
  "Unsigned_less_eq u v = (\<not> Unsigned_less v u)"

definition Unsigned_greater_eq :: "Unsigned \<Rightarrow> Unsigned \<Rightarrow> bool" where
  "Unsigned_greater_eq u v = (\<not> Unsigned_less u v)"

text \<open>\<^verbatim>\<open>operator==\<close> and \<^verbatim>\<open>operator!=\<close> on \<^verbatim>\<open>Unsigned\<close>.\<close>

definition Unsigned_eq :: "Unsigned \<Rightarrow> Unsigned \<Rightarrow> bool" where
  "Unsigned_eq u v =
     (if length u \<noteq> length v then False
      else fold (\<lambda>i r. r \<and> u ! i = v ! i) [0..<length u] True)"

definition Unsigned_neq :: "Unsigned \<Rightarrow> Unsigned \<Rightarrow> bool" where
  "Unsigned_neq u v = (\<not> Unsigned_eq u v)"

text \<open>
  \<^verbatim>\<open>Unsigned::operator<<=\<close>, the shift in place: every loop reads and writes the
  one digit store, in the order of the source.
\<close>

definition Unsigned_shl_assign :: "Unsigned \<Rightarrow> nat \<Rightarrow> Unsigned" where
  "Unsigned_shl_assign u s =
     (if s = 0 then u
      else
        let n = length u in
        if n = 0 then u
        else
          let ds = s div bitsPerDigit; lbs = s mod bitsPerDigit in
          if lbs = 0 then
            let d1 = resize (n + ds) u;
                d2 = fold (\<lambda>i d. d[i + ds := d ! i]) [0..<n] d1
            in fold (\<lambda>i d. d[i := 0]) [0..<ds] d2
          else
            let rbs = bitsPerDigit - lbs;
                lz = Unsigned_countLeadingZeroes u;
                d1 = (if lz < lbs
                      then (let d = resize (n + ds + 1) u
                            in d[n + ds := drop_bit rbs (d ! (n - 1))])
                      else resize (n + ds) u);
                d2 = fold (\<lambda>i d. d[ds + n - i - 1 :=
                                     push_bit lbs (d ! (n - i - 1))
                                     OR drop_bit rbs (d ! (n - i - 2))])
                       [0..<n - 1] d1;
                d3 = d2[ds := push_bit lbs (d2 ! 0)]
            in fold (\<lambda>i d. d[i := 0]) [0..<ds] d3)"

text \<open>\<^verbatim>\<open>operator<<(const Unsigned&, std::size_t)\<close>: the result is a store of its own.\<close>

definition Unsigned_shl :: "Unsigned \<Rightarrow> nat \<Rightarrow> Unsigned" where
  "Unsigned_shl u s =
     (if s = 0 then u
      else
        let n = length u in
        if n = 0 then u
        else
          let ds = s div bitsPerDigit; lbs = s mod bitsPerDigit in
          if lbs = 0 then
            let w1 = resize (n + ds) [];
                w2 = fold (\<lambda>i w. w[i + ds := u ! i]) [0..<n] w1
            in fold (\<lambda>i w. w[i := 0]) [0..<ds] w2
          else
            let rbs = bitsPerDigit - lbs;
                lz = Unsigned_countLeadingZeroes u;
                w1 = (if lz < lbs
                      then (resize (n + ds + 1) [])[n + ds := drop_bit rbs (u ! (n - 1))]
                      else resize (n + ds) []);
                w2 = fold (\<lambda>i w. w[ds + n - i - 1 :=
                                     push_bit lbs (u ! (n - i - 1))
                                     OR drop_bit rbs (u ! (n - i - 2))])
                       [0..<n - 1] w1;
                w3 = w2[ds := push_bit lbs (u ! 0)]
            in fold (\<lambda>i w. w[i := 0]) [0..<ds] w3)"

text \<open>\<^verbatim>\<open>Unsigned::operator>>=\<close>.\<close>

definition Unsigned_shr_assign :: "Unsigned \<Rightarrow> nat \<Rightarrow> Unsigned" where
  "Unsigned_shr_assign u s =
     (if s = 0 then u
      else
        let n = length u in
        if n = 0 then u
        else
          let lz = Unsigned_countLeadingZeroes u;
              nb = n * bitsPerDigit - lz in
          if nb \<le> s then resize 0 u
          else
            let ds = s div bitsPerDigit; rbs = s mod bitsPerDigit in
            if rbs = 0 then
              let m = n - ds
              in resize m (fold (\<lambda>i d. d[i := d ! (ds + i)]) [0..<m] u)
            else
              let lbs = bitsPerDigit - rbs;
                  m = (nb - s - 1) div bitsPerDigit + 1;
                  d1 = fold (\<lambda>i d. d[i := drop_bit rbs (d ! (i + ds))
                                              OR push_bit lbs (d ! (i + ds + 1))])
                         [0..<n - ds - 1] u;
                  d2 = (if lz < lbs
                        then d1[n - ds - 1 := drop_bit rbs (d1 ! (n - 1))]
                        else d1)
              in resize m d2)"

text \<open>\<^verbatim>\<open>operator>>(const Unsigned&, std::size_t)\<close>.\<close>

definition Unsigned_shr :: "Unsigned \<Rightarrow> nat \<Rightarrow> Unsigned" where
  "Unsigned_shr u s =
     (if s = 0 then u
      else
        let n = length u in
        if n = 0 then u
        else
          let lz = Unsigned_countLeadingZeroes u;
              nb = n * bitsPerDigit - lz in
          if nb \<le> s then []
          else
            let ds = s div bitsPerDigit; rbs = s mod bitsPerDigit in
            if rbs = 0 then
              let m = n - ds
              in fold (\<lambda>i w. w[i := u ! (ds + i)]) [0..<m] (resize m [])
            else
              let lbs = bitsPerDigit - rbs;
                  m = (nb - s - 1) div bitsPerDigit + 1;
                  w1 = fold (\<lambda>i w. w[i := drop_bit rbs (u ! (i + ds))
                                              OR push_bit lbs (u ! (i + ds + 1))])
                         [0..<n - ds - 1] (resize m [])
              in if lz < lbs
                 then w1[n - ds - 1 := drop_bit rbs (u ! (n - 1))]
                 else w1)"

text \<open>\<^verbatim>\<open>Unsigned::operator+=\<close>.\<close>

definition Unsigned_plus_assign :: "Unsigned \<Rightarrow> Unsigned \<Rightarrow> Unsigned" where
  "Unsigned_plus_assign u v =
     (let n = length u; m = length v in
      if m \<le> n then
        (case fold (\<lambda>i (d, carry).
                      case addCarry (d ! i) (v ! i) carry of (x, c) \<Rightarrow> (d[i := x], c))
                [0..<m] (u, False) of
           (d1, c1) \<Rightarrow>
             (case carry_loop m n d1 c1 of
                (d2, c2) \<Rightarrow> if c2 then (resize (n + 1) d2)[n := 1] else d2))
      else
        (case fold (\<lambda>i (d, carry).
                      case addCarry (d ! i) (v ! i) carry of (x, c) \<Rightarrow> (d[i := x], c))
                [0..<n] (resize (m + 1) u, False) of
           (d1, c1) \<Rightarrow>
             (case fold (\<lambda>i (d, carry).
                           case addCarry (v ! i) 0 carry of (x, c) \<Rightarrow> (d[i := x], c))
                     [n..<m] (d1, c1) of
                (d2, c2) \<Rightarrow> if c2 then d2[m := 1] else resize m d2)))"

text \<open>
  \<^verbatim>\<open>operator+(const Unsigned&, const Unsigned&)\<close>. The second loop stops with the
  carry and hands its index to the loop that copies the rest.
\<close>

function plus_carry_loop ::
  "nat \<Rightarrow> nat \<Rightarrow> Unsigned \<Rightarrow> Unsigned \<Rightarrow> bool \<Rightarrow> nat \<times> Unsigned \<times> bool" where
  "plus_carry_loop i n u w carry =
     (if i < n \<and> carry
      then (case addCarry (u ! i) 0 carry of
              (x, c) \<Rightarrow> plus_carry_loop (Suc i) n u (w[i := x]) c)
      else (i, w, carry))"
  by pat_completeness auto
termination
  by (relation "measure (\<lambda>(i, n, u, w, carry). n - i)") auto

declare plus_carry_loop.simps [simp del]

definition Unsigned_plus :: "Unsigned \<Rightarrow> Unsigned \<Rightarrow> Unsigned" where
  "Unsigned_plus pu pv =
     (let u = (if length pv \<le> length pu then pu else pv);
          v = (if length pv \<le> length pu then pv else pu);
          n = length u; m = length v
      in case fold (\<lambda>i (w, carry).
                      case addCarry (u ! i) (v ! i) carry of (x, c) \<Rightarrow> (w[i := x], c))
                [0..<m] (resize (n + 1) [], False) of
           (w1, c1) \<Rightarrow>
             (case plus_carry_loop m n u w1 c1 of
                (i, w2, c2) \<Rightarrow>
                  let w3 = fold (\<lambda>k w. w[k := u ! k]) [i..<n] w2
                  in if c2 then w3[n := 1] else resize n w3))"

text \<open>\<^verbatim>\<open>Unsigned::operator-=\<close>.\<close>

definition Unsigned_minus_assign :: "Unsigned \<Rightarrow> Unsigned \<Rightarrow> error + Unsigned" where
  "Unsigned_minus_assign u v =
     (let n = length u; m = length v in
      if n < m then Inl invalid_argument
      else
        (case fold (\<lambda>i (d, borrow).
                      case subBorrow (d ! i) (v ! i) borrow of (x, b) \<Rightarrow> (d[i := x], b))
                [0..<m] (u, False) of
           (d1, b1) \<Rightarrow>
             (case borrow_loop m n d1 b1 of
                (d2, b2) \<Rightarrow>
                  if b2 then Inl invalid_argument
                  else Inr (removeLeadingZeroDigits d2))))"

text \<open>\<^verbatim>\<open>operator-(const Unsigned&, const Unsigned&)\<close>.\<close>

function minus_borrow_loop ::
  "nat \<Rightarrow> nat \<Rightarrow> Unsigned \<Rightarrow> Unsigned \<Rightarrow> bool \<Rightarrow> nat \<times> Unsigned \<times> bool" where
  "minus_borrow_loop i n u w borrow =
     (if i < n \<and> borrow
      then (case subBorrow (u ! i) 0 borrow of
              (x, b) \<Rightarrow> minus_borrow_loop (Suc i) n u (w[i := x]) b)
      else (i, w, borrow))"
  by pat_completeness auto
termination
  by (relation "measure (\<lambda>(i, n, u, w, borrow). n - i)") auto

declare minus_borrow_loop.simps [simp del]

definition Unsigned_minus :: "Unsigned \<Rightarrow> Unsigned \<Rightarrow> error + Unsigned" where
  "Unsigned_minus u v =
     (let n = length u; m = length v in
      if n < m then Inl invalid_argument
      else
        (case fold (\<lambda>i (w, borrow).
                      case subBorrow (u ! i) (v ! i) borrow of (x, b) \<Rightarrow> (w[i := x], b))
                [0..<m] (resize n [], False) of
           (w1, b1) \<Rightarrow>
             (case minus_borrow_loop m n u w1 b1 of
                (i, w2, b2) \<Rightarrow>
                  let w3 = fold (\<lambda>k w. w[k := u ! k]) [i..<n] w2
                  in if b2 then Inl invalid_argument
                     else Inr (removeLeadingZeroDigits w3))))"

text \<open>
  \<^verbatim>\<open>operator*(const Unsigned&, const Unsigned&)\<close>: \<open>times_row\<close> is one round of the
  outer loop, for the digit \<open>v[i]\<close>. \<^verbatim>\<open>operator*=\<close> assigns the product.
\<close>

definition times_row :: "Unsigned \<Rightarrow> Unsigned \<Rightarrow> nat \<Rightarrow> Unsigned \<Rightarrow> Unsigned" where
  "times_row u v i w =
     (let n = length u in
      case fold (\<lambda>j (w, carry).
                   case multiplyAdd2 (u ! j) (v ! i) (w ! (i + j)) carry of
                     (x, c) \<Rightarrow> (w[i + j := x], c))
             [0..<n] (w, 0) of
        (w', carry) \<Rightarrow> w'[i + n := w' ! (i + n) + carry])"

definition Unsigned_times :: "Unsigned \<Rightarrow> Unsigned \<Rightarrow> Unsigned" where
  "Unsigned_times u v =
     (let n = length u; m = length v; nm = n + m;
          w0 = fold (\<lambda>i w. w[i := 0]) [0..<nm] (resize nm [])
      in removeLeadingZeroDigits (fold (times_row u v) [0..<m] w0))"

definition Unsigned_times_assign :: "Unsigned \<Rightarrow> Unsigned \<Rightarrow> Unsigned" where
  "Unsigned_times_assign u v = Unsigned_times u v"

subsection \<open>Division: Knuth's Algorithm D\<close>

text \<open>
  \<^verbatim>\<open>Unsigned::findDivQuotient(un, un1, un2, vn1, vn2)\<close>, the estimate of a quotient
  digit from three digits of the dividend and two of the divisor. The source asserts
  that the top bit of \<open>vn1\<close> is set.
\<close>

definition findDivQuotient ::
  "digit_t \<Rightarrow> digit_t \<Rightarrow> digit_t \<Rightarrow> digit_t \<Rightarrow> digit_t \<Rightarrow> error + digit_t" where
  "findDivQuotient un un1 un2 vn1 vn2 =
     (if vn1 AND push_bit (bitsPerDigit - 1) 1 = 0 then Inl assert_failure
      else if un < vn1 then
        (case divideRemainder un1 vn1 un of
           (q, r) \<Rightarrow>
             (case multiplyAdd q vn2 0 of
                (p1, carry) \<Rightarrow>
                  if carry < r \<or> (carry = r \<and> p1 \<le> un2) then Inr q
                  else
                    (case addCarry r vn1 False of
                       (r', acarry) \<Rightarrow>
                         if acarry then Inr (q - 1)
                         else
                           (case subBorrow p1 vn2 False of
                              (p1', borrow) \<Rightarrow>
                                let carry' = carry - (if borrow then 1 else 0) in
                                if carry' < r' \<or> (carry' = r' \<and> p1' \<le> un2)
                                then Inr (q - 1)
                                else Inr (q - 2)))))
      else
        (case subBorrow un1 vn1 False of
           (un1', borrow) \<Rightarrow>
             let un' = un - (if borrow then 1 else 0) in
             if un' < vn1 then
               (case divideRemainder un1' vn1 un' of
                  (q, r) \<Rightarrow>
                    (case addCarry r vn1 False of
                       (r', acarry) \<Rightarrow>
                         if acarry then Inr q
                         else
                           (case multiplyAdd q vn2 0 of
                              (p1, carry) \<Rightarrow>
                                if carry < r' \<or> (carry = r' \<and> p1 \<le> un2) then Inr q
                                else Inr (q - 1))))
             else
               (case divideRemainder (un1' - vn1) vn1 (un' - 1) of
                  (q, r) \<Rightarrow> Inr q)))"

text \<open>
  \<^verbatim>\<open>Unsigned::findDivQuotient(u, ls, vn1, vn2, i)\<close>: the three digits of the
  dividend below index \<open>i\<close>, shifted left by \<open>ls\<close> bits on the fly. \<^verbatim>\<open>div\<close> calls it
  with \<open>2 \<le> i\<close>.
\<close>

definition findDivQuotient_at ::
  "Unsigned \<Rightarrow> nat \<Rightarrow> digit_t \<Rightarrow> digit_t \<Rightarrow> nat \<Rightarrow> error + digit_t" where
  "findDivQuotient_at u ls vn1 vn2 i =
     (if length u < 3 \<or> length u \<le> i then Inl assert_failure
      else if ls = 0 then
        findDivQuotient (u ! i) (u ! (i - 1)) (u ! (i - 2)) vn1 vn2
      else
        let rs = bitsPerDigit - ls;
            un = push_bit ls (u ! i) OR drop_bit rs (u ! (i - 1));
            un1 = push_bit ls (u ! (i - 1)) OR drop_bit rs (u ! (i - 2));
            un2 = push_bit ls (u ! (i - 2));
            un2' = (if 0 < i - 2 then un2 OR drop_bit rs (u ! (i - 3)) else un2)
        in findDivQuotient un un1 un2' vn1 vn2)"

text \<open>
  One round of the loop of \<^verbatim>\<open>div\<close> (steps D3 to D6) at position \<open>j\<close>, on the
  quotient \<open>q\<close> and the running dividend \<open>nu\<close>.
\<close>

definition div_step ::
  "Unsigned \<Rightarrow> nat \<Rightarrow> digit_t \<Rightarrow> digit_t \<Rightarrow> nat \<Rightarrow> Unsigned \<times> Unsigned
     \<Rightarrow> error + Unsigned \<times> Unsigned" where
  "div_step v ls vn1 vn2 j s =
     (case s of
        (q, nu) \<Rightarrow>
          let n = length v in
          case findDivQuotient_at nu ls vn1 vn2 (j + n) of
            Inl e \<Rightarrow> Inl e
          | Inr qd \<Rightarrow>
              (case fold (\<lambda>i (nu, carry).
                            case multiplyAdd qd (v ! i) carry of
                              (md, c) \<Rightarrow>
                                (case subBorrow (nu ! (j + i)) md False of
                                   (x, borrow) \<Rightarrow>
                                     (nu[i + j := x], c + (if borrow then 1 else 0))))
                      [0..<n] (nu, 0) of
                 (nu1, carry) \<Rightarrow>
                   (case subBorrow (nu1 ! (j + n)) carry False of
                      (x, borrow) \<Rightarrow>
                        let nu2 = nu1[j + n := x];
                            q1 = q[j := qd]
                        in if borrow then
                             (case fold (\<lambda>i (nu, acarry).
                                           case addCarry (nu ! (j + i)) (v ! i) acarry of
                                             (y, c) \<Rightarrow> (nu[j + i := y], c))
                                     [0..<n] (nu2, False) of
                                (nu3, acarry) \<Rightarrow>
                                  Inr (q1[j := q1 ! j - 1],
                                       nu3[j + n := nu3 ! (j + n)
                                                     + (if acarry then 1 else 0)]))
                           else Inr (q1, nu2))))"

fun div_loop ::
  "Unsigned \<Rightarrow> nat \<Rightarrow> digit_t \<Rightarrow> digit_t \<Rightarrow> nat \<Rightarrow> Unsigned \<times> Unsigned
     \<Rightarrow> error + Unsigned \<times> Unsigned" where
  "div_loop v ls vn1 vn2 0 s = div_step v ls vn1 vn2 0 s"
| "div_loop v ls vn1 vn2 (Suc j) s =
     (case div_step v ls vn1 vn2 (Suc j) s of
        Inl e \<Rightarrow> Inl e
      | Inr s' \<Rightarrow> div_loop v ls vn1 vn2 j s')"

text \<open>
  \<^verbatim>\<open>div(const Unsigned&, const Unsigned&)\<close>; the result \<^verbatim>\<open>Unsigned::QR\<close> is the pair
  of the quotient and the remainder.
\<close>

definition Unsigned_div :: "Unsigned \<Rightarrow> Unsigned \<Rightarrow> error + Unsigned \<times> Unsigned" where
  "Unsigned_div u v =
     (let n = length v in
      if n = 0 then Inl invalid_argument
      else if length u < n then Inr ([], u)
      else if n = 1 then
        (case divideByDigitReturnRem (v ! 0) u of
           Inl e \<Rightarrow> Inl e
         | Inr (quot, r) \<Rightarrow> Inr (quot, removeLeadingZeroDigits ((resize 1 [])[0 := r])))
      else
        let m = length u - n;
            q = resize (m + 1) [];
            ls = Unsigned_countLeadingZeroes v;
            rs = bitsPerDigit - ls;
            vn1 = (if ls = 0 then v ! (n - 1)
                   else push_bit ls (v ! (n - 1)) OR drop_bit rs (v ! (n - 2)));
            vn2 = (if ls = 0 then v ! (n - 2)
                   else (let x = push_bit ls (v ! (n - 2))
                         in if 2 < n then x OR drop_bit rs (v ! (n - 3)) else x));
            nu = (resize (length u + 1) u)[length u := 0]
        in case div_loop v ls vn1 vn2 m (q, nu) of
             Inl e \<Rightarrow> Inl e
           | Inr (q', nu') \<Rightarrow>
               Inr (removeLeadingZeroDigits q', removeLeadingZeroDigits nu'))"

text \<open>\<^verbatim>\<open>operator/\<close> and \<^verbatim>\<open>operator%\<close>; \<^verbatim>\<open>operator/=\<close> and \<^verbatim>\<open>operator%=\<close> assign them.\<close>

definition Unsigned_divide :: "Unsigned \<Rightarrow> Unsigned \<Rightarrow> error + Unsigned" where
  "Unsigned_divide u v = (case Unsigned_div u v of Inl e \<Rightarrow> Inl e | Inr (q, r) \<Rightarrow> Inr q)"

definition Unsigned_mod :: "Unsigned \<Rightarrow> Unsigned \<Rightarrow> error + Unsigned" where
  "Unsigned_mod u v = (case Unsigned_div u v of Inl e \<Rightarrow> Inl e | Inr (q, r) \<Rightarrow> Inr r)"

subsection \<open>Powers and greatest common divisors\<close>

text \<open>
  \<^verbatim>\<open>powmod(u, exp, mod)\<close>: \<open>powmod_loop\<close> is the \<^verbatim>\<open>while (true)\<close> loop on
  \<open>r\<close>, \<open>p\<close> and \<open>exp\<close>. A loop that does not return has the value \<open>None\<close>.
\<close>

partial_function (option) powmod_loop ::
  "Unsigned \<Rightarrow> Unsigned \<Rightarrow> Unsigned \<Rightarrow> Unsigned \<Rightarrow> (error + Unsigned) option" where
  "powmod_loop r p exp md =
     (case (if exp ! 0 AND 1 \<noteq> 0 then Unsigned_mod (Unsigned_times r p) md else Inr r) of
        Inl e \<Rightarrow> Some (Inl e)
      | Inr r' \<Rightarrow>
          let exp' = Unsigned_shr_assign exp 1 in
          if length exp' = 0 then Some (Inr r')
          else (case Unsigned_mod (Unsigned_times p p) md of
                  Inl e \<Rightarrow> Some (Inl e)
                | Inr p' \<Rightarrow> powmod_loop r' p' exp' md))"

declare powmod_loop.simps [code]

definition powmod :: "Unsigned \<Rightarrow> Unsigned \<Rightarrow> Unsigned \<Rightarrow> (error + Unsigned) option" where
  "powmod u exp md =
     (let r = Unsigned_uint32 1 in
      if length exp = 0 then Some (Inr r)
      else (case Unsigned_mod u md of
              Inl e \<Rightarrow> Some (Inl e)
            | Inr p \<Rightarrow> powmod_loop r p exp md))"

text \<open>\<^verbatim>\<open>egcd\<close>, the Euclidean algorithm.\<close>

partial_function (option) egcd_loop ::
  "Unsigned \<Rightarrow> Unsigned \<Rightarrow> (error + Unsigned) option" where
  "egcd_loop a b =
     (if length b \<noteq> 0
      then (case Unsigned_mod a b of
              Inl e \<Rightarrow> Some (Inl e)
            | Inr c \<Rightarrow> egcd_loop b c)
      else Some (Inr a))"

declare egcd_loop.simps [code]

definition egcd :: "Unsigned \<Rightarrow> Unsigned \<Rightarrow> (error + Unsigned) option" where
  "egcd u v =
     (let vlte = Unsigned_less_eq v u;
          a = (if vlte then u else v);
          b = (if vlte then v else u)
      in egcd_loop a b)"

text \<open>
  \<^verbatim>\<open>bgcd\<close>, the binary algorithm: \<open>bgcd_loop\<close> is the \<^verbatim>\<open>do ... while (wv != 0)\<close>
  loop. \<^verbatim>\<open>gcd\<close> calls \<^verbatim>\<open>bgcd\<close>.
\<close>

partial_function (option) bgcd_loop ::
  "Unsigned \<Rightarrow> Unsigned \<Rightarrow> (error + Unsigned) option" where
  "bgcd_loop wu wv =
     (let vtz = Unsigned_ctz wv;
          wv1 = Unsigned_shr_assign wv vtz;
          wu2 = (if Unsigned_greater wu wv1 then wv1 else wu);
          wv2 = (if Unsigned_greater wu wv1 then wu else wv1)
      in case Unsigned_minus_assign wv2 wu2 of
           Inl e \<Rightarrow> Some (Inl e)
         | Inr wv3 \<Rightarrow>
             if Unsigned_neq wv3 (Unsigned_uint32 0) then bgcd_loop wu2 wv3
             else Some (Inr wu2))"

declare bgcd_loop.simps [code]

definition bgcd :: "Unsigned \<Rightarrow> Unsigned \<Rightarrow> (error + Unsigned) option" where
  "bgcd u v =
     (if length u = 0 then Some (Inr v)
      else if length v = 0 then Some (Inr u)
      else
        let utz = Unsigned_ctz u;
            vtz = Unsigned_ctz v;
            shift = min utz vtz;
            wu = Unsigned_shr_assign u utz;
            wv = Unsigned_shr_assign v shift
        in case bgcd_loop wu wv of
             None \<Rightarrow> None
           | Some (Inl e) \<Rightarrow> Some (Inl e)
           | Some (Inr wu') \<Rightarrow> Some (Inr (Unsigned_shl wu' shift)))"

definition Unsigned_gcd :: "Unsigned \<Rightarrow> Unsigned \<Rightarrow> (error + Unsigned) option" where
  "Unsigned_gcd u v = bgcd u v"

section \<open>Integers: \<^verbatim>\<open>class Signed\<close>\<close>

record Signed =
  val :: Unsigned
  sign :: int

definition int_of :: "Signed \<Rightarrow> int" where
  "int_of s = sign s * int (nat_of (val s))"

text \<open>\<^verbatim>\<open>Signed(const Unsigned&)\<close> and \<^verbatim>\<open>Signed(std::int32_t)\<close>.\<close>

definition Signed_Unsigned :: "Unsigned \<Rightarrow> Signed" where
  "Signed_Unsigned other = \<lparr>val = other, sign = (if other = [] then 0 else 1)\<rparr>"

definition Signed_int32 :: "32 word \<Rightarrow> Signed" where
  "Signed_int32 i =
     \<lparr>val = Unsigned_uint32 (if sint i < 0 then NOT i + 1 else i),
      sign = (if 0 < sint i then 1 else if sint i < 0 then - 1 else 0)\<rparr>"

text \<open>\<^verbatim>\<open>Signed()\<close> and \<^verbatim>\<open>Signed(const char*)\<close>.\<close>

definition Signed_zero :: Signed where
  "Signed_zero = \<lparr>val = [], sign = 0\<rparr>"

definition Signed_string :: "string \<Rightarrow> error + Signed" where
  "Signed_string dec =
     (let minus = (case dec of [] \<Rightarrow> False | c # cs \<Rightarrow> c = CHR ''-'') in
      case Unsigned_string (if minus then tl dec else dec) of
        Inl e \<Rightarrow> Inl e
      | Inr v \<Rightarrow>
          Inr \<lparr>val = v, sign = (if length v = 0 then 0 else if minus then - 1 else 1)\<rparr>)"

text \<open>\<^verbatim>\<open>operator<(const Signed&, const Signed&)\<close> and the comparisons built on it.\<close>

definition Signed_less :: "Signed \<Rightarrow> Signed \<Rightarrow> bool" where
  "Signed_less u v =
     (if sign u \<noteq> sign v then sign u < sign v
      else Unsigned_less (val u) (val v))"

definition Signed_greater_eq :: "Signed \<Rightarrow> Signed \<Rightarrow> bool" where
  "Signed_greater_eq u v = (\<not> Signed_less u v)"

definition Signed_greater :: "Signed \<Rightarrow> Signed \<Rightarrow> bool" where
  "Signed_greater u v = Signed_less v u"

definition Signed_less_eq :: "Signed \<Rightarrow> Signed \<Rightarrow> bool" where
  "Signed_less_eq u v = (\<not> Signed_greater u v)"

text \<open>
  \<^verbatim>\<open>Signed::operator++\<close> and \<^verbatim>\<open>Signed::operator--\<close>: the \<^verbatim>\<open>switch\<close> on the sign
  has the cases \<open>-1\<close>, \<open>0\<close> and \<open>1\<close>.
\<close>

definition Signed_increment :: "Signed \<Rightarrow> error + Signed" where
  "Signed_increment u =
     (if sign u = - 1 then
        (case subtractDigit 1 (val u) of
           Inl e \<Rightarrow> Inl e
         | Inr v \<Rightarrow> Inr \<lparr>val = v, sign = (if length v = 0 then 0 else sign u)\<rparr>)
      else if sign u = 0 then Inr \<lparr>val = addDigit 1 (val u), sign = 1\<rparr>
      else if sign u = 1 then Inr \<lparr>val = addDigit 1 (val u), sign = sign u\<rparr>
      else Inr u)"

definition Signed_decrement :: "Signed \<Rightarrow> error + Signed" where
  "Signed_decrement u =
     (if sign u = - 1 then Inr \<lparr>val = addDigit 1 (val u), sign = sign u\<rparr>
      else if sign u = 0 then Inr \<lparr>val = addDigit 1 (val u), sign = - 1\<rparr>
      else if sign u = 1 then
        (case subtractDigit 1 (val u) of
           Inl e \<Rightarrow> Inl e
         | Inr v \<Rightarrow> Inr \<lparr>val = v, sign = (if length v = 0 then 0 else sign u)\<rparr>)
      else Inr u)"

text \<open>\<^verbatim>\<open>Signed::operator+=\<close> and \<^verbatim>\<open>Signed::operator-=\<close>.\<close>

definition Signed_plus_assign :: "Signed \<Rightarrow> Signed \<Rightarrow> error + Signed" where
  "Signed_plus_assign u v =
     (if sign u = sign v then Inr (u\<lparr>val := Unsigned_plus_assign (val u) (val v)\<rparr>)
      else if Unsigned_greater (val u) (val v) then
        (case Unsigned_minus_assign (val u) (val v) of
           Inl e \<Rightarrow> Inl e
         | Inr w \<Rightarrow> Inr (u\<lparr>val := w\<rparr>))
      else
        (case Unsigned_minus (val v) (val u) of
           Inl e \<Rightarrow> Inl e
         | Inr w \<Rightarrow> Inr \<lparr>val = w, sign = (if length w = 0 then 0 else sign v)\<rparr>))"

definition Signed_minus_assign :: "Signed \<Rightarrow> Signed \<Rightarrow> error + Signed" where
  "Signed_minus_assign u v =
     (if - sign u = sign v then Inr (u\<lparr>val := Unsigned_plus_assign (val u) (val v)\<rparr>)
      else if Unsigned_greater (val u) (val v) then
        (case Unsigned_minus_assign (val u) (val v) of
           Inl e \<Rightarrow> Inl e
         | Inr w \<Rightarrow> Inr (u\<lparr>val := w\<rparr>))
      else
        (case Unsigned_minus (val v) (val u) of
           Inl e \<Rightarrow> Inl e
         | Inr w \<Rightarrow> Inr \<lparr>val = w, sign = (if length w = 0 then 0 else - sign v)\<rparr>))"

text \<open>
  \<^verbatim>\<open>Signed::operator*=\<close>, \<^verbatim>\<open>operator/=\<close>, \<^verbatim>\<open>operator%=\<close> and the member
  \<^verbatim>\<open>Signed::div\<close>, which leaves the quotient in the integer and returns the remainder
  (here: the pair of both).
\<close>

definition Signed_times_assign :: "Signed \<Rightarrow> Signed \<Rightarrow> Signed" where
  "Signed_times_assign u v =
     \<lparr>val = Unsigned_times_assign (val u) (val v), sign = sign u * sign v\<rparr>"

definition Signed_divide_assign :: "Signed \<Rightarrow> Signed \<Rightarrow> error + Signed" where
  "Signed_divide_assign u v =
     (case Unsigned_divide (val u) (val v) of
        Inl e \<Rightarrow> Inl e
      | Inr w \<Rightarrow> Inr \<lparr>val = w, sign = sign u * sign v\<rparr>)"

definition Signed_mod_assign :: "Signed \<Rightarrow> Signed \<Rightarrow> error + Signed" where
  "Signed_mod_assign u v =
     (case Unsigned_mod (val u) (val v) of
        Inl e \<Rightarrow> Inl e
      | Inr w \<Rightarrow> Inr (u\<lparr>val := w\<rparr>))"

definition Signed_div_member :: "Signed \<Rightarrow> Signed \<Rightarrow> error + Signed \<times> Signed" where
  "Signed_div_member u v =
     (case Unsigned_div (val u) (val v) of
        Inl e \<Rightarrow> Inl e
      | Inr (q, r) \<Rightarrow>
          Inr (\<lparr>val = q, sign = sign u * sign v\<rparr>, (Signed_Unsigned r)\<lparr>sign := sign u\<rparr>))"

text \<open>The operators that return a new integer: unary minus, \<open>+\<close>, \<open>-\<close>, \<open>*\<close>.\<close>

definition Signed_uminus :: "Signed \<Rightarrow> Signed" where
  "Signed_uminus u = \<lparr>val = val u, sign = - sign u\<rparr>"

definition Signed_plus :: "Signed \<Rightarrow> Signed \<Rightarrow> error + Signed" where
  "Signed_plus u v =
     (if sign u = sign v then Inr \<lparr>val = Unsigned_plus (val u) (val v), sign = sign u\<rparr>
      else if Unsigned_greater (val u) (val v) then
        (case Unsigned_minus (val u) (val v) of
           Inl e \<Rightarrow> Inl e
         | Inr w \<Rightarrow> Inr \<lparr>val = w, sign = sign u\<rparr>)
      else
        (case Unsigned_minus (val v) (val u) of
           Inl e \<Rightarrow> Inl e
         | Inr w \<Rightarrow> Inr \<lparr>val = w, sign = (if length w = 0 then 0 else sign v)\<rparr>))"

definition Signed_minus :: "Signed \<Rightarrow> Signed \<Rightarrow> error + Signed" where
  "Signed_minus u v =
     (if - sign u = sign v then Inr \<lparr>val = Unsigned_plus (val u) (val v), sign = sign u\<rparr>
      else if Unsigned_greater (val u) (val v) then
        (case Unsigned_minus (val u) (val v) of
           Inl e \<Rightarrow> Inl e
         | Inr w \<Rightarrow> Inr \<lparr>val = w, sign = sign u\<rparr>)
      else
        (case Unsigned_minus (val v) (val u) of
           Inl e \<Rightarrow> Inl e
         | Inr w \<Rightarrow> Inr \<lparr>val = w, sign = (if length w = 0 then 0 else - sign v)\<rparr>))"

definition Signed_times :: "Signed \<Rightarrow> Signed \<Rightarrow> Signed" where
  "Signed_times u v = \<lparr>val = Unsigned_times (val u) (val v), sign = sign u * sign v\<rparr>"

text \<open>
  \<^verbatim>\<open>div(const Signed&, const Signed&)\<close>: the quotient and the remainder of the
  magnitudes, converted by \<^verbatim>\<open>Signed(Unsigned&&)\<close>, then the two signs are assigned.
  \<^verbatim>\<open>operator/\<close> and \<^verbatim>\<open>operator%\<close> return its components.
\<close>

definition Signed_div :: "Signed \<Rightarrow> Signed \<Rightarrow> error + Signed \<times> Signed" where
  "Signed_div u v =
     (case Unsigned_div (val u) (val v) of
        Inl e \<Rightarrow> Inl e
      | Inr (uq, ur) \<Rightarrow>
          Inr ((Signed_Unsigned uq)\<lparr>sign := sign u * sign v\<rparr>,
               (Signed_Unsigned ur)\<lparr>sign := sign u\<rparr>))"

definition Signed_divide :: "Signed \<Rightarrow> Signed \<Rightarrow> error + Signed" where
  "Signed_divide u v = (case Signed_div u v of Inl e \<Rightarrow> Inl e | Inr (q, r) \<Rightarrow> Inr q)"

definition Signed_mod :: "Signed \<Rightarrow> Signed \<Rightarrow> error + Signed" where
  "Signed_mod u v = (case Signed_div u v of Inl e \<Rightarrow> Inl e | Inr (q, r) \<Rightarrow> Inr r)"

text \<open>The invariant of \<^verbatim>\<open>Signed\<close>: the sign is 0 exactly when the magnitude is zero.\<close>

definition Signed_invariant :: "Signed \<Rightarrow> bool" where
  "Signed_invariant s = ((sign s = 0) = (nat_of (val s) = 0))"

section \<open>Rational numbers: \<^verbatim>\<open>class Rational\<close>\<close>

record Rational =
  num :: Signed
  den :: Unsigned

text \<open>
  \<^verbatim>\<open>Rational::reduce\<close> divides the numerator and the denominator by their \<^verbatim>\<open>gcd\<close>.
  The numerator is divided by \<^verbatim>\<open>Signed::operator/=\<close> after the conversion
  \<^verbatim>\<open>Signed(const Unsigned&)\<close> of the divisor.
\<close>

definition reduce :: "Rational \<Rightarrow> (error + Rational) option" where
  "reduce r =
     (case Unsigned_gcd (val (num r)) (den r) of
        None \<Rightarrow> None
      | Some (Inl e) \<Rightarrow> Some (Inl e)
      | Some (Inr d) \<Rightarrow>
          (case Signed_divide_assign (num r) (Signed_Unsigned d) of
             Inl e \<Rightarrow> Some (Inl e)
           | Inr n' \<Rightarrow>
               (case Unsigned_divide (den r) d of
                  Inl e \<Rightarrow> Some (Inl e)
                | Inr d' \<Rightarrow> Some (Inr \<lparr>num = n', den = d'\<rparr>))))"

text \<open>
  The constructors \<^verbatim>\<open>Rational()\<close>, \<^verbatim>\<open>Rational(num, den)\<close>, \<^verbatim>\<open>Rational(Unsigned)\<close>
  and \<^verbatim>\<open>Rational(Signed)\<close>.
\<close>

definition Rational_zero :: Rational where
  "Rational_zero = \<lparr>num = Signed_zero, den = Unsigned_uint32 1\<rparr>"

definition Rational_of :: "Signed \<Rightarrow> Unsigned \<Rightarrow> (error + Rational) option" where
  "Rational_of n d =
     (if length d = 0 then Some (Inl invalid_argument)
      else reduce \<lparr>num = n, den = d\<rparr>)"

definition Rational_Unsigned :: "Unsigned \<Rightarrow> Rational" where
  "Rational_Unsigned v = \<lparr>num = Signed_Unsigned v, den = Unsigned_uint32 1\<rparr>"

definition Rational_Signed :: "Signed \<Rightarrow> Rational" where
  "Rational_Signed v = \<lparr>num = v, den = Unsigned_uint32 1\<rparr>"

text \<open>
  \<^verbatim>\<open>Rational(double d)\<close>. The argument is the IEEE-754 binary64 bit pattern of
  \<open>d\<close>, which the source copies into a \<^verbatim>\<open>std::uint64_t\<close>; \<open>d\<close> is not finite
  exactly when the exponent field holds 2047.
\<close>

definition Rational_double :: "64 word \<Rightarrow> (error + Rational) option" where
  "Rational_double u =
     (let frac = u AND 0xFFFFFFFFFFFFF;
          bexp = drop_bit 52 u AND 0x7FF;
          sgn1 = drop_bit 63 u;
          r0 = \<lparr>num = Signed_zero, den = Unsigned_uint32 1\<rparr>
      in if bexp = 0x7FF then Some (Inl invalid_argument)
         else if bexp = 0 then
           (if frac \<noteq> 0 then
              reduce \<lparr>num = \<lparr>val = Unsigned_uint64 frac,
                              sign = (if sgn1 = 1 then - 1 else 1)\<rparr>,
                      den = Unsigned_shl_assign (den r0) (1022 + 52)\<rparr>
            else reduce r0)
         else
           let frac' = frac OR 0x10000000000000;
               n1 = \<lparr>val = Unsigned_uint64 frac', sign = (if sgn1 = 1 then - 1 else 1)\<rparr>
           in if bexp < 1023 + 52 then
                reduce \<lparr>num = n1,
                        den = Unsigned_shl_assign (den r0) (1023 + 52 - unat bexp)\<rparr>
              else
                reduce \<lparr>num = n1\<lparr>val := Unsigned_shl_assign (val n1) (unat bexp - 1023 - 52)\<rparr>,
                        den = den r0\<rparr>)"

text \<open>\<^verbatim>\<open>Rational::reciprocal\<close>.\<close>

definition reciprocal :: "Rational \<Rightarrow> error + Rational" where
  "reciprocal r =
     (if length (val (num r)) = 0 then Inl logic_error
      else Inr \<lparr>num = (Signed_Unsigned (den r))\<lparr>sign := sign (num r)\<rparr>,
                den = val (num r)\<rparr>)"

text \<open>
  The compound assignments \<^verbatim>\<open>+=\<close>, \<^verbatim>\<open>-=\<close>, \<^verbatim>\<open>*=\<close>, \<^verbatim>\<open>/=\<close> of \<^verbatim>\<open>Rational\<close>, for an
  argument \<open>v\<close> that is another object than the receiver.
\<close>

definition Rational_plus_assign :: "Rational \<Rightarrow> Rational \<Rightarrow> (error + Rational) option" where
  "Rational_plus_assign u v =
     (let n1 = Signed_times_assign (num u) (Signed_Unsigned (den v)) in
      case Signed_plus_assign n1 (Signed_times (num v) (Signed_Unsigned (den u))) of
        Inl e \<Rightarrow> Some (Inl e)
      | Inr n2 \<Rightarrow> reduce \<lparr>num = n2, den = Unsigned_times_assign (den u) (den v)\<rparr>)"

definition Rational_minus_assign :: "Rational \<Rightarrow> Rational \<Rightarrow> (error + Rational) option" where
  "Rational_minus_assign u v =
     (let n1 = Signed_times_assign (num u) (Signed_Unsigned (den v)) in
      case Signed_minus_assign n1 (Signed_times (num v) (Signed_Unsigned (den u))) of
        Inl e \<Rightarrow> Some (Inl e)
      | Inr n2 \<Rightarrow> reduce \<lparr>num = n2, den = Unsigned_times_assign (den u) (den v)\<rparr>)"

definition Rational_times_assign :: "Rational \<Rightarrow> Rational \<Rightarrow> (error + Rational) option" where
  "Rational_times_assign u v =
     reduce \<lparr>num = Signed_times_assign (num u) (num v),
             den = Unsigned_times_assign (den u) (den v)\<rparr>"

definition Rational_divide_assign :: "Rational \<Rightarrow> Rational \<Rightarrow> (error + Rational) option" where
  "Rational_divide_assign u v =
     (if length (val (num v)) = 0 then Some (Inl invalid_argument)
      else
        let n1 = Signed_times_assign (num u) (Signed_Unsigned (den v));
            d1 = Unsigned_times_assign (den u) (val (num v))
        in reduce \<lparr>num = n1\<lparr>sign := sign n1 * sign (num v)\<rparr>, den = d1\<rparr>)"

text \<open>The operators that return a new rational: unary minus, \<open>+\<close>, \<open>-\<close>, \<open>*\<close>, \<open>/\<close>.\<close>

definition Rational_uminus :: "Rational \<Rightarrow> (error + Rational) option" where
  "Rational_uminus u = Rational_of (Signed_uminus (num u)) (den u)"

definition Rational_plus :: "Rational \<Rightarrow> Rational \<Rightarrow> (error + Rational) option" where
  "Rational_plus u v =
     (case Signed_plus (Signed_times (num u) (Signed_Unsigned (den v)))
                       (Signed_times (num v) (Signed_Unsigned (den u))) of
        Inl e \<Rightarrow> Some (Inl e)
      | Inr n \<Rightarrow> Rational_of n (Unsigned_times (den u) (den v)))"

definition Rational_minus :: "Rational \<Rightarrow> Rational \<Rightarrow> (error + Rational) option" where
  "Rational_minus u v =
     (case Signed_minus (Signed_times (num u) (Signed_Unsigned (den v)))
                        (Signed_times (num v) (Signed_Unsigned (den u))) of
        Inl e \<Rightarrow> Some (Inl e)
      | Inr n \<Rightarrow> Rational_of n (Unsigned_times (den u) (den v)))"

definition Rational_times :: "Rational \<Rightarrow> Rational \<Rightarrow> (error + Rational) option" where
  "Rational_times u v =
     Rational_of (Signed_times (num u) (num v)) (Unsigned_times (den u) (den v))"

definition Rational_divide :: "Rational \<Rightarrow> Rational \<Rightarrow> (error + Rational) option" where
  "Rational_divide u v =
     (if length (val (num v)) = 0 then Some (Inl invalid_argument)
      else
        (case Rational_of (Signed_Unsigned (Unsigned_times (val (num u)) (den v)))
                          (Unsigned_times (den u) (val (num v))) of
           None \<Rightarrow> None
         | Some (Inl e) \<Rightarrow> Some (Inl e)
         | Some (Inr w) \<Rightarrow>
             Some (Inr (w\<lparr>num := (num w)\<lparr>sign := sign (num u) * sign (num v)\<rparr>\<rparr>))))"

text \<open>The invariant of \<^verbatim>\<open>Rational\<close>: lowest terms, with a non-zero denominator.\<close>

definition Rational_invariant :: "Rational \<Rightarrow> bool" where
  "Rational_invariant r =
     (nat_of (den r) \<noteq> 0 \<and> gcd (nat_of (val (num r))) (nat_of (den r)) = 1)"

text \<open>
  \<^verbatim>\<open>Unsigned::operator std::uint64_t\<close>, and \<^verbatim>\<open>Rational::operator double\<close>, whose
  result is the bit pattern that the source copies into the \<^verbatim>\<open>double\<close> it returns.
  \<open>d\<close> and \<open>nls\<close> are \<^verbatim>\<open>std::ptrdiff_t\<close>.
\<close>

definition Unsigned_to_uint64 :: "Unsigned \<Rightarrow> error + 64 word" where
  "Unsigned_to_uint64 u =
     (if 64 < Unsigned_bits u then Inl overflow_error
      else Inr (fold (\<lambda>i ret. ret OR push_bit (i * bitsPerDigit) (ucast (u ! i)))
                  [0..<length u] 0))"

definition round_quotient :: "64 word \<Rightarrow> int \<Rightarrow> 64 word \<times> int" where
  "round_quotient q nls =
     (let (q1, nls1) = (if q AND push_bit 54 1 \<noteq> 0 then (drop_bit 1 q, nls - 1) else (q, nls));
          (q2, nls2) = (if q1 AND 3 \<noteq> 0
                        then (let q' = q1 + 1
                              in if q' AND push_bit 54 1 \<noteq> 0 then (drop_bit 1 q', nls1 - 1)
                                 else (q', nls1))
                        else (q1, nls1))
      in (drop_bit 1 q2, nls2 - 1))"

definition Rational_to_double :: "Rational \<Rightarrow> error + 64 word" where
  "Rational_to_double r =
     (if length (val (num r)) = 0 then Inr 0
      else
        let d = int (Unsigned_bits (val (num r))) - int (Unsigned_bits (den r));
            sgn1 = (if sign (num r) = - 1 then 1 else 0 :: 64 word)
        in if d \<le> - 1075 then Inr (push_bit 63 (if sign (num r) < 0 then 1 else 0))
           else if 1025 \<le> d then
             Inr (push_bit 63 (if sign (num r) < 0 then 1 else 0) OR push_bit 52 0x7FF)
           else
             let nls = 54 - d;
                 snum = (if 0 \<le> nls then Unsigned_shl (val (num r)) (nat nls)
                         else Unsigned_shr (val (num r)) (nat (- nls)))
             in case Unsigned_divide snum (den r) of
                  Inl e \<Rightarrow> Inl e
                | Inr qu \<Rightarrow>
                    (case Unsigned_to_uint64 qu of
                       Inl e \<Rightarrow> Inl e
                     | Inr q0 \<Rightarrow>
                         (case round_quotient q0 nls of
                            (q, nls') \<Rightarrow>
                              let bexp = (if 1074 < nls' then 0
                                          else if 971 < - nls' then 2047
                                          else word_of_int (1075 - nls') :: 64 word);
                                  frac = (if 1074 < nls' then
                                            (let sr = nat (nls' - 1074)
                                             in if 63 < sr then 0 else drop_bit sr q)
                                          else if 971 < - nls' then 0
                                          else q AND 0xFFFFFFFFFFFFF)
                              in Inr (push_bit 63 sgn1 OR push_bit 52 bexp OR frac))))"

section \<open>Auxiliary notions for the proofs\<close>

text \<open>
  The digit at index \<open>j\<close> of a store shifted left by \<open>lbs\<close> bits, \<open>0 < lbs < 32\<close>, and
  the digit at index \<open>j\<close> of a store shifted right by \<open>rbs\<close> bits: the closed forms of what
  the loops of the shift operators write.
\<close>

definition shl_digit :: "nat \<Rightarrow> Unsigned \<Rightarrow> nat \<Rightarrow> digit_t" where
  "shl_digit lbs u j =
     (if j < length u then push_bit lbs (u ! j) else 0)
     OR (if 0 < j then drop_bit (32 - lbs) (u ! (j - 1)) else 0)"

definition shr_digit :: "nat \<Rightarrow> Unsigned \<Rightarrow> nat \<Rightarrow> digit_t" where
  "shr_digit rbs u j =
     drop_bit rbs (u ! j)
     OR (if j + 1 < length u then push_bit (32 - rbs) (u ! (j + 1)) else 0)"

section \<open>The primitive operations on natural numbers\<close>

lemma base_pos [simp]: "0 < base"
  by (simp add: base_def)

lemma base_gt1 [simp]: "1 < base"
  by (simp add: base_def)

lemma unat_lt_base: "unat (a :: digit_t) < base"
  using unsigned_less [of a, where 'a = nat] by (simp add: base_def)

lemma unat_le_base: "unat (a :: digit_t) \<le> base - 1"
  using unat_lt_base [of a] by arith

lemma unat64_lt: "unat (a :: ddigit_t) < base * base"
  using unsigned_less [of a, where 'a = nat] by (simp add: base_def)

lemma unat_ucast_up [simp]: "unat (ucast (a :: digit_t) :: ddigit_t) = unat a"
  using unat_lt_base [of a] by (simp add: unsigned_ucast_eq take_bit_nat_def base_def)

lemma unat_ucast_down: "unat (ucast (a :: ddigit_t) :: digit_t) = unat a mod base"
  by (simp add: unsigned_ucast_eq take_bit_nat_def base_def)

lemma unat_drop32: "unat (drop_bit 32 (a :: ddigit_t)) = unat a div base"
  using unat64_lt [of a]
  by (simp add: unsigned_drop_bit_eq drop_bit_nat_def take_bit_nat_def base_def)

lemma drop32_ne0: "(drop_bit 32 (a :: ddigit_t) \<noteq> 0) = (base \<le> unat a)"
proof -
  have "(drop_bit 32 a = 0) = (unat (drop_bit 32 a) = 0)"
    by (simp add: unat_eq_zero)
  also have "\<dots> = (unat a < base)"
    using base_pos by (simp add: unat_drop32 div_eq_0_iff del: base_pos)
  finally show ?thesis by auto
qed

lemma bb64: "(2::nat) ^ LENGTH(64) = base * base"
  by (simp add: base_def)

lemma unat_dd_plus: "unat (x + y :: ddigit_t) = (unat x + unat y) mod (base * base)"
  unfolding unat_word_ariths bb64 ..

lemma unat_dd_times: "unat (x * y :: ddigit_t) = (unat x * unat y) mod (base * base)"
  unfolding unat_word_ariths bb64 ..

lemma unat_dd_minus:
  "unat (x - y :: ddigit_t) = (if unat y \<le> unat x then unat x - unat y else unat x + base * base - unat y)"
  unfolding unat_sub_if' bb64 ..

lemma unat_dd_bool: "unat (if c then 1 else 0 :: ddigit_t) = (if c then 1 else 0)"
  by simp

lemma two_base_le: "2 * base \<le> base * base"
  by (simp add: base_def)

lemma addCarry_spec:
  assumes "addCarry a b c = (x, c')"
  shows "unat x + base * (if c' then 1 else 0) = unat a + unat b + (if c then 1 else 0)"
proof -
  define dd :: ddigit_t where "dd = ucast a + ucast b + (if c then 1 else 0)"
  have lt: "unat a + unat b + (if c then 1 else 0) < 2 * base"
    using unat_lt_base [of a] unat_lt_base [of b] by (cases c) simp_all
  have lt1: "unat a + unat b < base * base"
    using lt two_base_le by linarith
  have lt2: "unat a + unat b + (if c then 1 else 0) < base * base"
    using lt two_base_le by linarith
  have "unat dd = (unat (ucast a + ucast b :: ddigit_t) + (if c then 1 else 0)) mod (base * base)"
    unfolding dd_def unat_dd_plus [of "ucast a + ucast b"] unat_dd_bool ..
  also have "unat (ucast a + ucast b :: ddigit_t) = unat a + unat b"
    unfolding unat_dd_plus unat_ucast_up using lt1 by (rule mod_less)
  finally have dd: "unat dd = unat a + unat b + (if c then 1 else 0)"
    using lt2 by (simp only: mod_less)
  have x: "x = ucast dd" and c': "c' = (drop_bit 32 dd \<noteq> 0)"
    using assms by (simp_all add: addCarry_def dd_def Let_def)
  show ?thesis
  proof (cases "base \<le> unat dd")
    case True
    then have "unat dd mod base = unat dd - base"
      using lt dd by (simp add: mod_if)
    then show ?thesis
      using True unfolding x c' drop32_ne0 unat_ucast_down dd [symmetric] by simp
  next
    case False
    then show ?thesis
      unfolding x c' drop32_ne0 unat_ucast_down dd [symmetric] by simp
  qed
qed

lemma wrap_mod:
  fixes a t B :: nat
  assumes "t \<le> B" "\<not> t \<le> a" "0 < B"
  shows "(a + B * B - t) mod B = a + B - t"
proof -
  obtain k where k: "B = Suc k" using assms(3) by (cases B) auto
  have "a + B * B - t = (a + B - t) + k * B"
    using assms by (simp add: k)
  moreover have "a + B - t < B" using assms by simp
  ultimately show ?thesis by simp
qed

lemma subBorrow_spec:
  assumes "subBorrow a b c = (x, c')"
  shows "unat x + unat b + (if c then 1 else 0) = unat a + base * (if c' then 1 else 0)"
proof -
  define s :: ddigit_t where "s = ucast b + (if c then 1 else 0)"
  define dd :: ddigit_t where "dd = ucast a - s"
  define t where "t = unat b + (if c then 1 else 0 :: nat)"
  have t: "t \<le> base"
    using unat_lt_base [of b] by (cases c) (simp_all add: t_def)
  have "t < base * base"
    using t two_base_le base_pos by linarith
  then have s: "unat s = t"
    unfolding s_def t_def unat_dd_plus unat_ucast_up unat_dd_bool by (rule mod_less)
  have dd: "unat dd = (if t \<le> unat a then unat a - t else unat a + base * base - t)"
    unfolding dd_def unat_dd_minus s unat_ucast_up ..
  have "ucast a - ucast b - (if c then 1 else 0 :: ddigit_t) = dd"
    by (simp add: dd_def s_def diff_diff_eq)
  then have x: "x = ucast dd" and c': "c' = (drop_bit 32 dd \<noteq> 0)"
    using assms by (simp_all add: subBorrow_def Let_def)
  show ?thesis
  proof (cases "t \<le> unat a")
    case True
    then have "unat dd = unat a - t"
      using dd by simp
    then have "\<not> c'" and "unat x = unat a - t"
      using unat_lt_base [of a]
      unfolding x c' drop32_ne0 unat_ucast_down by simp_all
    then show ?thesis
      using True by (cases c) (simp_all add: t_def)
  next
    case False
    then have e: "unat dd = unat a + base * base - t"
      using dd by simp
    have m: "(unat a + base * base - t) mod base = unat a + base - t"
      using t False by (intro wrap_mod) auto
    have "base \<le> unat a + base * base - t"
      using t two_base_le base_pos by linarith
    then have "c'" and "unat x = unat a + base - t"
      unfolding x c' drop32_ne0 unat_ucast_down e m by simp_all
    then show ?thesis
      using False t by (cases c) (simp_all add: t_def)
  qed
qed

lemma mul_bound: "(base - 1) * (base - 1) + (base - 1) + (base - 1) < base * base"
  by (simp add: base_def)

lemma multiplyAdd2_spec:
  assumes "multiplyAdd2 a b c carry = (x, c')"
  shows "unat x + base * unat c' = unat a * unat b + unat c + unat carry"
proof -
  define dd :: ddigit_t where "dd = ucast a * ucast b + ucast c + ucast carry"
  have "unat a * unat b \<le> (base - 1) * (base - 1)"
    using unat_le_base [of a] unat_le_base [of b] by (intro mult_mono) auto
  then have bound: "unat a * unat b + unat c + unat carry < base * base"
    using unat_le_base [of c] unat_le_base [of carry] mul_bound by linarith
  have b1: "unat a * unat b < base * base" and b2: "unat a * unat b + unat c < base * base"
    using bound by linarith+
  have "unat dd = (unat (ucast a * ucast b + ucast c :: ddigit_t) + unat carry) mod (base * base)"
    unfolding dd_def unat_dd_plus [of "ucast a * ucast b + ucast c"] unat_ucast_up ..
  also have "unat (ucast a * ucast b + ucast c :: ddigit_t) = (unat (ucast a * ucast b :: ddigit_t) + unat c) mod (base * base)"
    unfolding unat_dd_plus unat_ucast_up ..
  also have "unat (ucast a * ucast b :: ddigit_t) = unat a * unat b"
    unfolding unat_dd_times unat_ucast_up using b1 by (rule mod_less)
  finally have dd: "unat dd = unat a * unat b + unat c + unat carry"
    using b2 bound by (simp only: mod_less)
  have x: "x = ucast dd" and c': "c' = ucast (drop_bit 32 dd)"
    using assms by (simp_all add: multiplyAdd2_def dd_def Let_def)
  have "unat dd div base < base"
    using bound by (simp add: dd less_mult_imp_div_less)
  then show ?thesis
    unfolding x c' unat_ucast_down unat_drop32 dd [symmetric]
    by simp
qed

lemma multiplyAdd_spec:
  assumes "multiplyAdd a b carry = (x, c')"
  shows "unat x + base * unat c' = unat a * unat b + unat carry"
proof -
  have "multiplyAdd2 a b 0 carry = (x, c')"
    using assms by (simp add: multiplyAdd_def multiplyAdd2_def)
  from multiplyAdd2_spec [OF this] show ?thesis by simp
qed

lemma push32_and_ucast: "push_bit 32 (x :: ddigit_t) AND ucast (a :: digit_t) = 0"
  by (rule bit_eqI) (auto simp: bit_simps dest: bit_imp_le_length)

lemma unat_push32_or:
  "unat (push_bit 32 (ucast (r :: digit_t) :: ddigit_t) OR ucast (a :: digit_t)) = unat r * base + unat a"
proof -
  have "push_bit 32 (ucast r :: ddigit_t) OR ucast a = push_bit 32 (ucast r) + ucast a"
    using push32_and_ucast [of "ucast r" a] by (simp add: disjunctive_add_eq_or)
  moreover have p: "unat (push_bit 32 (ucast r :: ddigit_t)) = unat r * base"
  proof -
    have "unat r * base < base * base"
      using unat_lt_base [of r] by simp
    then show ?thesis
      unfolding unsigned_push_bit_eq take_bit_nat_def push_bit_nat_def unat_ucast_up bb64
      by (simp add: base_def)
  qed
  moreover have "unat r * base + unat a < base * base"
  proof -
    have "unat r * base + unat a \<le> (base - 1) * base + (base - 1)"
      using unat_le_base [of r] unat_le_base [of a] by (intro add_mono mult_right_mono) auto
    also have "\<dots> < base * base"
      by (simp add: base_def)
    finally show ?thesis .
  qed
  moreover have "unat (push_bit 32 (ucast r :: ddigit_t) + ucast a)
      = (unat (push_bit 32 (ucast r :: ddigit_t)) + unat (ucast a :: ddigit_t)) mod (base * base)"
    by (rule unat_dd_plus)
  ultimately show ?thesis
    by (simp only: p unat_ucast_up mod_less)
qed

lemma unat_dd_div: "unat (x div y :: ddigit_t) = unat x div unat y"
  by (rule unat_div)

lemma unat_dd_mod: "unat (x mod y :: ddigit_t) = unat x mod unat y"
  by (simp add: unat_mod_distrib)

lemma divideRemainder_spec:
  assumes "divideRemainder a b r = (q, r')" "b \<noteq> 0"
  shows "unat q = ((unat r * base + unat a) div unat b) mod base"
    and "unat r' = (unat r * base + unat a) mod unat b"
proof -
  define dd :: ddigit_t where "dd = push_bit 32 (ucast r) OR ucast a"
  have dd: "unat dd = unat r * base + unat a"
    unfolding dd_def by (rule unat_push32_or)
  have q: "q = ucast (dd div ucast b)" and r': "r' = ucast (dd mod ucast b)"
    using assms(1) by (simp_all add: divideRemainder_def dd_def Let_def)
  have b: "0 < unat b"
    using assms(2) by (simp add: unat_gt_0)
  show "unat q = ((unat r * base + unat a) div unat b) mod base"
    unfolding q unat_ucast_down unat_dd_div unat_ucast_up dd ..
  have "unat dd mod unat b < base"
    using b unat_lt_base [of b] by (meson less_trans mod_less_divisor)
  then show "unat r' = (unat r * base + unat a) mod unat b"
    unfolding r' unat_ucast_down unat_dd_mod unat_ucast_up dd by simp
qed

lemma divideRemainder_spec_lt:
  assumes "divideRemainder a b r = (q, r')" "r < b"
  shows "unat r * base + unat a = unat q * unat b + unat r'" and "unat r' < unat b"
proof -
  have b: "b \<noteq> 0" using assms(2) by auto
  have rb: "unat r < unat b" using assms(2) by (simp add: word_less_nat_alt)
  have "unat r * base + unat a < unat b * base"
  proof -
    have "unat r * base + unat a < unat r * base + base"
      using unat_lt_base [of a] by simp
    also have "\<dots> = (unat r + 1) * base" by simp
    also have "\<dots> \<le> unat b * base"
      using rb by (intro mult_right_mono) auto
    finally show ?thesis .
  qed
  then have "(unat r * base + unat a) div unat b < base"
    by (simp add: less_mult_imp_div_less mult.commute)
  then have q: "unat q = (unat r * base + unat a) div unat b"
    using divideRemainder_spec(1) [OF assms(1) b] by simp
  show "unat r * base + unat a = unat q * unat b + unat r'"
    unfolding q divideRemainder_spec(2) [OF assms(1) b] by simp
  show "unat r' < unat b"
    unfolding divideRemainder_spec(2) [OF assms(1) b] using rb by simp
qed

text \<open>Shifts of one digit.\<close>

lemma unat_push_bit_digit:
  "unat (push_bit k (a :: digit_t)) = (unat a * 2 ^ k) mod base"
  by (simp add: unsigned_push_bit_eq take_bit_nat_def push_bit_nat_def base_def)

lemma unat_drop_bit_digit:
  "unat (drop_bit k (a :: digit_t)) = unat a div 2 ^ k"
  using unat_lt_base [of a]
  by (simp add: unsigned_drop_bit_eq take_bit_nat_def drop_bit_nat_def base_def)

lemma push_and_drop_digit:
  assumes "k + j = 32"
  shows "push_bit k (a :: digit_t) AND drop_bit j (b :: digit_t) = 0"
  using assms by (intro bit_eqI) (auto simp: bit_simps dest: bit_imp_le_length)

lemma base_split: "k + j = 32 \<Longrightarrow> base = 2 ^ k * 2 ^ j"
  by (simp add: base_def flip: power_add)

lemma unat_push_or_drop:
  assumes "k + j = 32"
  shows "unat (push_bit k (a :: digit_t) OR drop_bit j (b :: digit_t))
         = (unat a * 2 ^ k) mod base + unat b div 2 ^ j"
proof -
  note bkj = base_split [OF assms]
  have lt: "(unat a * 2 ^ k) mod base + unat b div 2 ^ j < base"
  proof -
    have "2 ^ k dvd (unat a * 2 ^ k) mod base"
      unfolding bkj by (simp add: dvd_mod)
    then obtain m where m: "(unat a * 2 ^ k) mod base = 2 ^ k * m" ..
    have "2 ^ k * m < 2 ^ k * 2 ^ j"
      using mod_less_divisor [OF base_pos, of "unat a * 2 ^ k"]
      unfolding m bkj [symmetric] .
    then have "m < 2 ^ j" by simp
    then have "m + 1 \<le> 2 ^ j" by simp
    then have "2 ^ k * (m + 1) \<le> 2 ^ k * 2 ^ j" by (rule mult_le_mono2)
    moreover have "unat b div 2 ^ j < 2 ^ k"
      using unat_lt_base [of b] unfolding bkj
      by (simp add: less_mult_imp_div_less)
    ultimately have "2 ^ k * m + unat b div 2 ^ j < 2 ^ k * 2 ^ j"
      by simp
    then show ?thesis
      using m bkj by simp
  qed
  have "push_bit k a OR drop_bit j b = push_bit k a + drop_bit j b"
    using push_and_drop_digit [OF assms, of a b] by (simp add: disjunctive_add_eq_or)
  then have "unat (push_bit k a OR drop_bit j b) = (unat (push_bit k a) + unat (drop_bit j b)) mod base"
    by (simp add: unat_word_ariths base_def)
  then show ?thesis
    using lt by (simp add: unat_push_bit_digit unat_drop_bit_digit)
qed

lemma and_top_mask_iff:
  "((x :: digit_t) AND NOT (mask k) = 0) = (unat x < 2 ^ k)"
proof -
  have "(x AND NOT (mask k) = 0) = (take_bit k x = x)"
    by (auto simp: bit_eq_iff bit_simps dest: bit_imp_le_length)
  also have "\<dots> = (unat (take_bit k x) = unat x)"
    by (simp add: word_unat_eq_iff)
  also have "\<dots> = (unat x < 2 ^ k)"
    by (simp add: unsigned_take_bit_eq take_bit_nat_def mod_eq_self_iff_div_eq_0 div_eq_0_iff)
  finally show ?thesis .
qed

lemma push_bit_top_mask: "push_bit i (NOT (mask k) :: digit_t) = NOT (mask (k + i))"
  by (auto simp: bit_eq_iff bit_simps dest: bit_imp_le_length)

lemma clz_step_spec:
  assumes "clz_step i (msk, x, ret) = (msk2, x2, ret2)"
    and "push_bit i msk = NOT (mask (32 - i))"
    and "2 * i \<le> 32" and "2 ^ (32 - 2 * i) \<le> unat x" and "unat x = unat v * 2 ^ ret"
  shows "msk2 = NOT (mask (32 - i)) \<and> 2 ^ (32 - i) \<le> unat x2
         \<and> unat x2 = unat v * 2 ^ ret2 \<and> ret2 \<le> ret + i"
proof (cases "unat x < 2 ^ (32 - i)")
  case True
  then have "x AND push_bit i msk = 0"
    unfolding assms(2) and_top_mask_iff .
  then have r: "msk2 = NOT (mask (32 - i))" "x2 = push_bit i x" "ret2 = ret + i"
    using assms(1,2) by (auto simp: clz_step_def Let_def)
  have "unat x * 2 ^ i < 2 ^ (32 - i) * 2 ^ i"
    using True by simp
  also have "(2::nat) ^ (32 - i) * 2 ^ i = base"
    using assms(3) by (simp add: base_def flip: power_add)
  finally have x2: "unat x2 = unat x * 2 ^ i"
    by (simp add: r unat_push_bit_digit)
  have "(2::nat) ^ (32 - 2 * i) * 2 ^ i \<le> unat x * 2 ^ i"
    using assms(4) by simp
  moreover have "(2::nat) ^ (32 - 2 * i) * 2 ^ i = 2 ^ (32 - i)"
    using assms(3) by (simp flip: power_add)
  ultimately show ?thesis
    using r x2 assms(5) by (simp add: power_add)
next
  case False
  then have "x AND push_bit i msk \<noteq> 0"
    unfolding assms(2) and_top_mask_iff .
  then have r: "msk2 = NOT (mask (32 - i))" "x2 = x" "ret2 = ret"
    using assms(1,2) by (auto simp: clz_step_def Let_def)
  show ?thesis
    using r False assms(5) by simp
qed

lemma countLeadingZeroes_spec:
  assumes "v \<noteq> 0"
  shows "countLeadingZeroes v < 32"
    and "base \<le> 2 * (unat v * 2 ^ countLeadingZeroes v)"
    and "unat v * 2 ^ countLeadingZeroes v < base"
proof -
  obtain m1 x1 r1 where s1: "clz_step 16 (NOT 0, v, 0) = (m1, x1, r1)"
    by (metis prod_cases3)
  obtain m2 x2 r2 where s2: "clz_step 8 (m1, x1, r1) = (m2, x2, r2)"
    by (metis prod_cases3)
  obtain m3 x3 r3 where s3: "clz_step 4 (m2, x2, r2) = (m3, x3, r3)"
    by (metis prod_cases3)
  obtain m4 x4 r4 where s4: "clz_step 2 (m3, x3, r3) = (m4, x4, r4)"
    by (metis prod_cases3)
  obtain m5 x5 r5 where s5: "clz_step 1 (m4, x4, r4) = (m5, x5, r5)"
    by (metis prod_cases3)
  have v: "2 ^ (32 - 2 * 16) \<le> unat v"
    using assms by (simp add: unat_gt_0 Suc_leI)
  have p1: "push_bit 16 (NOT 0 :: digit_t) = NOT (mask (32 - 16))"
    using push_bit_top_mask [of 16 0] by simp
  have i1: "m1 = NOT (mask 16) \<and> 2 ^ 16 \<le> unat x1 \<and> unat x1 = unat v * 2 ^ r1 \<and> r1 \<le> 16"
    using clz_step_spec [OF s1 p1 _ v, of v] by simp
  have p2: "push_bit 8 m1 = NOT (mask (32 - 8))"
    using push_bit_top_mask [of 8 16] i1 by simp
  have i2: "m2 = NOT (mask 24) \<and> 2 ^ 24 \<le> unat x2 \<and> unat x2 = unat v * 2 ^ r2 \<and> r2 \<le> r1 + 8"
    using clz_step_spec [OF s2 p2, of v] i1 by simp
  have p3: "push_bit 4 m2 = NOT (mask (32 - 4))"
    using push_bit_top_mask [of 4 24] i2 by simp
  have i3: "m3 = NOT (mask 28) \<and> 2 ^ 28 \<le> unat x3 \<and> unat x3 = unat v * 2 ^ r3 \<and> r3 \<le> r2 + 4"
    using clz_step_spec [OF s3 p3, of v] i2 by simp
  have p4: "push_bit 2 m3 = NOT (mask (32 - 2))"
    using push_bit_top_mask [of 2 28] i3 by simp
  have i4: "m4 = NOT (mask 30) \<and> 2 ^ 30 \<le> unat x4 \<and> unat x4 = unat v * 2 ^ r4 \<and> r4 \<le> r3 + 2"
    using clz_step_spec [OF s4 p4, of v] i3 by simp
  have p5: "push_bit 1 m4 = NOT (mask (32 - 1))"
    using push_bit_top_mask [of 1 30] i4 by simp
  have i5: "m5 = NOT (mask 31) \<and> 2 ^ 31 \<le> unat x5 \<and> unat x5 = unat v * 2 ^ r5 \<and> r5 \<le> r4 + 1"
    using clz_step_spec [OF s5 p5, of v] i4 by simp
  have c: "countLeadingZeroes v = r5"
    using assms
    by (simp only: countLeadingZeroes_def if_False fold_simps comp_def id_def s1 s2 s3 s4 s5 snd_conv)
  show "countLeadingZeroes v < 32"
    using i1 i2 i3 i4 i5 c by simp
  show "base \<le> 2 * (unat v * 2 ^ countLeadingZeroes v)"
    using i5 c by (simp add: base_def)
  show "unat v * 2 ^ countLeadingZeroes v < base"
    using i5 c unat_lt_base [of x5] by simp
qed

lemma and_mask_iff_dvd:
  "((x :: digit_t) AND mask k = 0) = (2 ^ k dvd unat x)"
proof -
  have "(x AND mask k = 0) = (take_bit k x = 0)"
    by (simp add: take_bit_eq_mask)
  also have "\<dots> = (unat (take_bit k x) = 0)"
    by (simp add: unat_eq_zero)
  also have "\<dots> = (2 ^ k dvd unat x)"
    by (simp add: unsigned_take_bit_eq take_bit_eq_0_iff)
  finally show ?thesis .
qed

lemma ctz_step_spec:
  assumes "ctz_step i (msk, x, ret) = (msk2, x2, ret2)"
    and "drop_bit i msk = mask i"
    and "\<not> 2 ^ (2 * i) dvd unat x" and "unat v = unat x * 2 ^ ret"
  shows "msk2 = mask i \<and> \<not> 2 ^ i dvd unat x2
         \<and> unat v = unat x2 * 2 ^ ret2 \<and> ret2 \<le> ret + i"
proof (cases "2 ^ i dvd unat x")
  case True
  then have "x AND drop_bit i msk = 0"
    by (simp add: assms(2) and_mask_iff_dvd)
  then have r: "msk2 = mask i" "x2 = drop_bit i x" "ret2 = ret + i"
    using assms(1,2) by (auto simp: ctz_step_def Let_def)
  have x2: "unat x = unat x2 * 2 ^ i"
    using True by (simp add: r unat_drop_bit_digit)
  have "\<not> 2 ^ i dvd unat x2"
  proof
    assume "2 ^ i dvd unat x2"
    then have "2 ^ i * 2 ^ i dvd unat x2 * 2 ^ i"
      by (simp add: mult_dvd_mono)
    then show False
      using assms(3) x2 by (simp add: mult_2 power_add)
  qed
  then show ?thesis
    using r x2 assms(4) by (simp add: power_add)
next
  case False
  then have "x AND drop_bit i msk \<noteq> 0"
    by (simp add: assms(2) and_mask_iff_dvd)
  then have r: "msk2 = mask i" "x2 = x" "ret2 = ret"
    using assms(1,2) by (auto simp: ctz_step_def Let_def)
  show ?thesis
    using r False assms(4) by simp
qed

lemma drop_bit_masks:
  "drop_bit 16 (NOT 0 :: digit_t) = mask 16" "drop_bit 8 (mask 16 :: digit_t) = mask 8"
  "drop_bit 4 (mask 8 :: digit_t) = mask 4" "drop_bit 2 (mask 4 :: digit_t) = mask 2"
  "drop_bit 1 (mask 2 :: digit_t) = mask 1"
  by (simp_all add: mask_eq_exp_minus_1 drop_bit_eq_div)

lemma countTrailingZeroes_spec:
  assumes "v \<noteq> 0"
  shows "countTrailingZeroes v < 32"
    and "2 ^ countTrailingZeroes v dvd unat v"
    and "odd (unat v div 2 ^ countTrailingZeroes v)"
proof -
  obtain m1 x1 r1 where s1: "ctz_step 16 (NOT 0, v, 0) = (m1, x1, r1)"
    by (metis prod_cases3)
  obtain m2 x2 r2 where s2: "ctz_step 8 (m1, x1, r1) = (m2, x2, r2)"
    by (metis prod_cases3)
  obtain m3 x3 r3 where s3: "ctz_step 4 (m2, x2, r2) = (m3, x3, r3)"
    by (metis prod_cases3)
  obtain m4 x4 r4 where s4: "ctz_step 2 (m3, x3, r3) = (m4, x4, r4)"
    by (metis prod_cases3)
  obtain m5 x5 r5 where s5: "ctz_step 1 (m4, x4, r4) = (m5, x5, r5)"
    by (metis prod_cases3)
  have "\<not> base dvd unat v"
    using assms unat_lt_base [of v]
    by (metis dvd_imp_le not_less unat_gt_0)
  then have v: "\<not> 2 ^ (2 * 16) dvd unat v"
    by (simp add: base_def)
  note j1 = ctz_step_spec [OF s1 drop_bit_masks(1) v, of v]
  have i1: "m1 = mask 16" "\<not> 2 ^ (2 * 8) dvd unat x1" "unat v = unat x1 * 2 ^ r1" "r1 \<le> 16"
    using j1 by simp_all
  have p2: "drop_bit 8 m1 = mask 8"
    by (simp only: i1(1) drop_bit_masks)
  note j2 = ctz_step_spec [OF s2 p2 i1(2,3)]
  have i2: "m2 = mask 8" "\<not> 2 ^ (2 * 4) dvd unat x2" "unat v = unat x2 * 2 ^ r2" "r2 \<le> r1 + 8"
    using j2 by simp_all
  have p3: "drop_bit 4 m2 = mask 4"
    by (simp only: i2(1) drop_bit_masks)
  note j3 = ctz_step_spec [OF s3 p3 i2(2,3)]
  have i3: "m3 = mask 4" "\<not> 2 ^ (2 * 2) dvd unat x3" "unat v = unat x3 * 2 ^ r3" "r3 \<le> r2 + 4"
    using j3 by simp_all
  have p4: "drop_bit 2 m3 = mask 2"
    by (simp only: i3(1) drop_bit_masks)
  note j4 = ctz_step_spec [OF s4 p4 i3(2,3)]
  have i4: "m4 = mask 2" "\<not> 2 ^ (2 * 1) dvd unat x4" "unat v = unat x4 * 2 ^ r4" "r4 \<le> r3 + 2"
    using j4 by simp_all
  have p5: "drop_bit 1 m4 = mask 1"
    by (simp only: i4(1) drop_bit_masks)
  note j5 = ctz_step_spec [OF s5 p5 i4(2,3)]
  have i5: "odd (unat x5) \<and> unat v = unat x5 * 2 ^ r5 \<and> r5 \<le> r4 + 1"
    using j5 by simp
  have c: "countTrailingZeroes v = r5"
    using assms
    by (simp only: countTrailingZeroes_def if_False fold_simps comp_def id_def s1 s2 s3 s4 s5 snd_conv)
  show "countTrailingZeroes v < 32"
    using i1 i2 i3 i4 i5 c by simp
  show "2 ^ countTrailingZeroes v dvd unat v"
    using i5 c by simp
  show "odd (unat v div 2 ^ countTrailingZeroes v)"
    using i5 c by simp
qed

section \<open>The value of a digit store\<close>

lemma nat_of_append: "nat_of (xs @ ys) = nat_of xs + base ^ length xs * nat_of ys"
  by (induction xs) (simp_all add: algebra_simps)

lemma nat_of_lt: "nat_of xs < base ^ length xs"
proof (induction xs)
  case Nil
  show ?case by simp
next
  case (Cons x xs)
  have "unat x + base * nat_of xs \<le> (base - 1) + base * (base ^ length xs - 1)"
    using Cons unat_le_base [of x] by (intro add_mono mult_le_mono2) auto
  also have "\<dots> < base * base ^ length xs"
    using base_pos by (simp add: algebra_simps Suc_le_eq less_eq_Suc_le [symmetric])
  finally show ?case by simp
qed

lemma nat_of_replicate0 [simp]: "nat_of (replicate n 0) = 0"
  by (induction n) simp_all

lemma nat_of_snoc: "nat_of (xs @ [x]) = nat_of xs + base ^ length xs * unat x"
  by (simp add: nat_of_append)

lemma nat_of_take_drop: "nat_of xs = nat_of (take k xs) + base ^ min k (length xs) * nat_of (drop k xs)"
  using nat_of_append [of "take k xs" "drop k xs"] by (simp add: min.commute)

lemma nat_of_take_Suc:
  "k < length xs \<Longrightarrow> nat_of (take (Suc k) xs) = nat_of (take k xs) + base ^ k * unat (xs ! k)"
  by (simp add: take_Suc_conv_app_nth nat_of_snoc)

lemma take_update_Suc:
  "k < length xs \<Longrightarrow> take (Suc k) (xs[k := x]) = take k xs @ [x]"
  by (simp add: take_Suc_conv_app_nth)

lemma nat_of_update:
  "k < length xs \<Longrightarrow> nat_of (xs[k := x]) + base ^ k * unat (xs ! k) = nat_of xs + base ^ k * unat x"
proof (induction xs arbitrary: k)
  case Nil
  then show ?case by simp
next
  case (Cons y ys)
  show ?case
  proof (cases k)
    case 0
    then show ?thesis by simp
  next
    case (Suc j)
    then have "nat_of (ys[j := x]) + base ^ j * unat (ys ! j) = nat_of ys + base ^ j * unat x"
      using Cons by simp
    then have "base * (nat_of (ys[j := x]) + base ^ j * unat (ys ! j)) = base * (nat_of ys + base ^ j * unat x)"
      by simp
    then show ?thesis
      using Suc by (simp add: algebra_simps)
  qed
qed

lemma normalized_Nil [simp]: "normalized []"
  by (simp add: normalized_def)

lemma normalized_snoc [simp]: "normalized (xs @ [x]) = (x \<noteq> 0)"
  by (simp add: normalized_def)

lemma normalized_ge:
  assumes "normalized xs" "xs \<noteq> []"
  shows "base ^ (length xs - 1) \<le> nat_of xs"
proof -
  obtain ys y where xs: "xs = ys @ [y]"
    using assms(2) by (metis rev_exhaust)
  then have "y \<noteq> 0"
    using assms(1) by simp
  then have "1 \<le> unat y"
    by (simp add: unat_gt_0 Suc_leI)
  then have "base ^ length ys * 1 \<le> base ^ length ys * unat y"
    by (rule mult_le_mono2)
  then show ?thesis
    by (simp add: xs nat_of_snoc trans_le_add2)
qed

lemma nat_of_eq_0_iff: "normalized xs \<Longrightarrow> (nat_of xs = 0) = (xs = [])"
proof (cases "xs = []")
  case True
  then show ?thesis by simp
next
  case False
  assume "normalized xs"
  from normalized_ge [OF this False] have "0 < nat_of xs"
    using zero_less_power [OF base_pos, of "length xs - 1"] by linarith
  then show ?thesis
    using False by simp
qed

lemma nat_of_pos: "normalized xs \<Longrightarrow> xs \<noteq> [] \<Longrightarrow> 0 < nat_of xs"
  using nat_of_eq_0_iff [of xs] by simp

lemma nat_of_inj_length:
  "length xs = length ys \<Longrightarrow> nat_of xs = nat_of ys \<Longrightarrow> xs = ys"
proof (induction xs arbitrary: ys)
  case Nil
  then show ?case by simp
next
  case (Cons x xs)
  then obtain y ys' where ys: "ys = y # ys'"
    by (cases ys) auto
  have e: "unat x + base * nat_of xs = unat y + base * nat_of ys'"
    using Cons.prems ys by simp
  have "(unat x + base * nat_of xs) mod base = unat x"
    using unat_lt_base [of x] by simp
  moreover have "(unat y + base * nat_of ys') mod base = unat y"
    using unat_lt_base [of y] by simp
  ultimately have xy: "unat x = unat y"
    using e by simp
  then have "base * nat_of xs = base * nat_of ys'"
    using e by simp
  then have "nat_of xs = nat_of ys'"
    using base_pos by (simp del: base_pos)
  then show ?case
    using Cons ys xy by (simp add: word_unat_eq_iff)
qed

lemma normalized_length_le:
  assumes "normalized xs" "nat_of xs < base ^ k"
  shows "length xs \<le> k"
proof (rule ccontr)
  assume "\<not> length xs \<le> k"
  then have "k \<le> length xs - 1" and "xs \<noteq> []" by auto
  then have "base ^ k \<le> base ^ (length xs - 1)"
    by (simp add: power_increasing Suc_leI)
  then show False
    using normalized_ge [OF assms(1) \<open>xs \<noteq> []\<close>] assms(2) by simp
qed

lemma normalized_inj:
  assumes "normalized xs" "normalized ys" "nat_of xs = nat_of ys"
  shows "xs = ys"
proof -
  have "length xs \<le> length ys"
    using normalized_length_le [OF assms(1), of "length ys"] nat_of_lt [of ys] assms(3) by simp
  moreover have "length ys \<le> length xs"
    using normalized_length_le [OF assms(2), of "length xs"] nat_of_lt [of xs] assms(3) by simp
  ultimately show ?thesis
    using nat_of_inj_length assms(3) by auto
qed

text \<open>\<^verbatim>\<open>removeLeadingZeroDigits\<close> and \<^verbatim>\<open>resize\<close>.\<close>

lemma rlz_loop_le: "removeLeadingZeroDigits_loop n u \<le> n"
  by (induction n) auto

lemma rlz_loop_spec:
  "n \<le> length u \<Longrightarrow>
     nat_of (take (removeLeadingZeroDigits_loop n u) u) = nat_of (take n u)
     \<and> normalized (take (removeLeadingZeroDigits_loop n u) u)"
proof (induction n)
  case 0
  show ?case by simp
next
  case (Suc n)
  then have n: "n < length u" by simp
  show ?case
  proof (cases "u ! n = 0")
    case True
    then show ?thesis
      using Suc n by (simp add: nat_of_take_Suc)
  next
    case False
    then show ?thesis
      using n by (simp add: take_Suc_conv_app_nth)
  qed
qed

lemma nat_of_removeLeadingZeroDigits [simp]:
  "nat_of (removeLeadingZeroDigits u) = nat_of u"
  using rlz_loop_spec [of "length u" u] by (simp add: removeLeadingZeroDigits_def)

lemma normalized_removeLeadingZeroDigits [simp]:
  "normalized (removeLeadingZeroDigits u)"
  using rlz_loop_spec [of "length u" u] by (simp add: removeLeadingZeroDigits_def)

lemma removeLeadingZeroDigits_normalized:
  "normalized u \<Longrightarrow> removeLeadingZeroDigits u = u"
  by (rule normalized_inj) simp_all

lemma length_resize [simp]: "length (resize n u) = n"
  by (simp add: resize_def)

lemma resize_Nil: "resize n [] = replicate n 0"
  by (simp add: resize_def)

lemma resize_grow: "length u \<le> n \<Longrightarrow> resize n u = u @ replicate (n - length u) 0"
  by (simp add: resize_def)

lemma resize_shrink: "n \<le> length u \<Longrightarrow> resize n u = take n u"
  by (simp add: resize_def)

lemma nat_of_resize_grow: "length u \<le> n \<Longrightarrow> nat_of (resize n u) = nat_of u"
  by (simp add: resize_grow nat_of_append)

text \<open>The comparison operators.\<close>

lemma less_loop_spec:
  "n \<le> length u \<Longrightarrow> n \<le> length v \<Longrightarrow>
     Unsigned_less_loop n u v = (nat_of (take n u) < nat_of (take n v))"
proof (induction n)
  case 0
  show ?case by simp
next
  case (Suc n)
  then have n: "n < length u" "n < length v" by simp_all
  have lu: "nat_of (take n u) < base ^ n"
    using nat_of_lt [of "take n u"] n by simp
  have lv: "nat_of (take n v) < base ^ n"
    using nat_of_lt [of "take n v"] n by simp
  show ?case
  proof (cases "u ! n = v ! n")
    case True
    then show ?thesis
      using Suc n by (simp add: nat_of_take_Suc)
  next
    case False
    then have ne: "unat (u ! n) \<noteq> unat (v ! n)"
      by (simp add: word_unat_eq_iff)
    show ?thesis
    proof (cases "u ! n < v ! n")
      case True
      then have "unat (u ! n) + 1 \<le> unat (v ! n)"
        by (simp add: word_less_nat_alt)
      then have "base ^ n * (unat (u ! n) + 1) \<le> base ^ n * unat (v ! n)"
        by (rule mult_le_mono2)
      then have "nat_of (take n u) + base ^ n * unat (u ! n) < nat_of (take n v) + base ^ n * unat (v ! n)"
        using lu by (simp add: algebra_simps)
      then show ?thesis
        using True False n by (simp add: nat_of_take_Suc)
    next
      case f: False
      then have "unat (v ! n) + 1 \<le> unat (u ! n)"
        using ne by (simp add: word_less_nat_alt)
      then have "base ^ n * (unat (v ! n) + 1) \<le> base ^ n * unat (u ! n)"
        by (rule mult_le_mono2)
      then have "nat_of (take n v) + base ^ n * unat (v ! n) < nat_of (take n u) + base ^ n * unat (u ! n)"
        using lv by (simp add: algebra_simps)
      then show ?thesis
        using f False n by (simp add: nat_of_take_Suc)
    qed
  qed
qed

lemma Unsigned_less_iff:
  assumes "normalized u" "normalized v"
  shows "Unsigned_less u v = (nat_of u < nat_of v)"
proof (cases "length u = length v")
  case True
  then show ?thesis
    using less_loop_spec [of "length u" u v] by (simp add: Unsigned_less_def)
next
  case False
  show ?thesis
  proof (cases "length u < length v")
    case True
    then have "v \<noteq> []" by auto
    have "nat_of u < base ^ length u"
      by (rule nat_of_lt)
    also have "\<dots> \<le> base ^ (length v - 1)"
      using True by (simp add: power_increasing Suc_leI)
    also have "\<dots> \<le> nat_of v"
      by (rule normalized_ge [OF assms(2) \<open>v \<noteq> []\<close>])
    finally show ?thesis
      using True by (simp add: Unsigned_less_def)
  next
    case f: False
    then have lt: "length v < length u" using False by simp
    then have "u \<noteq> []" by auto
    have "nat_of v < base ^ length v"
      by (rule nat_of_lt)
    also have "\<dots> \<le> base ^ (length u - 1)"
      using lt by (simp add: power_increasing Suc_leI)
    also have "\<dots> \<le> nat_of u"
      by (rule normalized_ge [OF assms(1) \<open>u \<noteq> []\<close>])
    finally show ?thesis
      using f False by (simp add: Unsigned_less_def)
  qed
qed

lemma Unsigned_greater_iff:
  "normalized u \<Longrightarrow> normalized v \<Longrightarrow> Unsigned_greater u v = (nat_of v < nat_of u)"
  by (simp add: Unsigned_greater_def Unsigned_less_iff)

lemma Unsigned_less_eq_iff:
  "normalized u \<Longrightarrow> normalized v \<Longrightarrow> Unsigned_less_eq u v = (nat_of u \<le> nat_of v)"
  by (auto simp: Unsigned_less_eq_def Unsigned_less_iff)

lemma eq_loop: "fold (\<lambda>i r. r \<and> u ! i = v ! i) [0..<n] True = (take n u = take n v)"
  if "n \<le> length u" "n \<le> length v"
  using that
proof (induction n)
  case 0
  show ?case by simp
next
  case (Suc n)
  then show ?case
    by (auto simp: take_Suc_conv_app_nth)
qed

lemma Unsigned_eq_iff: "Unsigned_eq u v = (u = v)"
  using eq_loop [of "length u" u v] by (auto simp: Unsigned_eq_def)

lemma Unsigned_neq_iff: "Unsigned_neq u v = (u \<noteq> v)"
  by (simp add: Unsigned_neq_def Unsigned_eq_iff)

section \<open>Loops that write a digit store by index\<close>

lemma length_fold_upd [simp]:
  "length (fold (\<lambda>i w. w[h i := f i w]) xs w) = length w"
  by (induction xs arbitrary: w) simp_all

lemma fold_upd_nth_other:
  "(\<And>j. j < n \<Longrightarrow> h j \<noteq> k) \<Longrightarrow> fold (\<lambda>i w. w[h i := f i]) [0..<n] w ! k = w ! k"
  by (induction n) simp_all

lemma fold_upd_asc_nth:
  "c + n \<le> length w \<Longrightarrow>
     fold (\<lambda>i w. w[i + c := f i]) [0..<n] w ! k
       = (if c \<le> k \<and> k < c + n then f (k - c) else w ! k)"
proof (induction n)
  case 0
  show ?case by auto
next
  case (Suc n)
  then have "n + c < length (fold (\<lambda>i w. w[i + c := f i]) [0..<n] w)" by simp
  then show ?case
    using Suc by (auto simp: nth_list_update less_Suc_eq)
qed

lemma fold_upd_desc_nth:
  "n \<le> c \<Longrightarrow> c < length w \<Longrightarrow>
     fold (\<lambda>i w. w[c - i := f i]) [0..<n] w ! k
       = (if c - n < k \<and> k \<le> c then f (c - k) else w ! k)"
proof (induction n)
  case 0
  show ?case by auto
next
  case (Suc n)
  then have "c - n < length (fold (\<lambda>i w. w[c - i := f i]) [0..<n] w)" by simp
  then show ?case
    using Suc by (auto simp: nth_list_update)
qed

lemma fold_inplace_eq:
  assumes "\<And>i d. i < n \<Longrightarrow> length d = length d0
              \<Longrightarrow> (\<And>k. (\<And>j. j < i \<Longrightarrow> h j \<noteq> k) \<Longrightarrow> d ! k = d0 ! k) \<Longrightarrow> G i d = G i d0"
  shows "fold (\<lambda>i d. d[h i := G i d]) [0..<n] d0 = fold (\<lambda>i d. d[h i := G i d0]) [0..<n] d0"
  using assms
proof (induction n)
  case 0
  show ?case by simp
next
  case (Suc n)
  have ih: "fold (\<lambda>i d. d[h i := G i d]) [0..<n] d0 = fold (\<lambda>i d. d[h i := G i d0]) [0..<n] d0"
  proof (rule Suc.IH)
    fix i d
    assume i: "i < n" and l: "length d = length d0"
      and a: "\<And>k. (\<And>j. j < i \<Longrightarrow> h j \<noteq> k) \<Longrightarrow> d ! k = d0 ! k"
    from i have i': "i < Suc n" by simp
    show "G i d = G i d0"
      using i' l a by (rule Suc.prems)
  qed
  define D where "D = fold (\<lambda>i d. d[h i := G i d0]) [0..<n] d0"
  have l: "length D = length d0"
    by (simp add: D_def)
  have o: "\<And>k. (\<And>j. j < n \<Longrightarrow> h j \<noteq> k) \<Longrightarrow> D ! k = d0 ! k"
    unfolding D_def by (rule fold_upd_nth_other)
  have "G n D = G n d0"
    using lessI l o by (rule Suc.prems)
  then show ?case
    by (simp add: ih D_def)
qed

lemma fold_zero_nth:
  "ds \<le> length w \<Longrightarrow>
     fold (\<lambda>i w. w[i := 0]) [0..<ds] w ! k = (if k < ds then 0 else w ! k)"
proof (induction ds)
  case 0
  show ?case by simp
next
  case (Suc ds)
  then have "ds < length (fold (\<lambda>i w. w[i := 0]) [0..<ds] w)" by simp
  then show ?case
    using Suc by (auto simp: nth_list_update less_Suc_eq)
qed

section \<open>The shift loops\<close>

lemma desc_index: "(\<lambda>i w. w[ds + n - i - 1 := F i]) = (\<lambda>i (w :: Unsigned). w[(ds + n - 1) - i := F i])"
  by (intro ext) (simp add: diff_commute)

lemma shl_loops_closed:
  fixes u :: Unsigned
  assumes n: "0 < n" "n = length u" and len: "length w1 = n + ds + t" and t: "t \<le> 1"
  shows "fold (\<lambda>i w. w[i := 0]) [0..<ds]
           ((fold (\<lambda>i w. w[ds + n - i - 1 :=
                              push_bit lbs (u ! (n - i - 1)) OR drop_bit (32 - lbs) (u ! (n - i - 2))])
               [0..<n - 1] w1)[ds := push_bit lbs (u ! 0)])
         = replicate ds 0 @ map (shl_digit lbs u) [0..<n] @ drop (n + ds) w1"
    (is "?W = ?R")
proof (rule nth_equalityI)
  show l: "length ?W = length ?R"
    using len by simp
  fix k
  assume "k < length ?W"
  then have k: "k < n + ds + t"
    using len by simp
  define F where "F i = push_bit lbs (u ! (n - i - 1)) OR drop_bit (32 - lbs) (u ! (n - i - 2))" for i
  define w2 where "w2 = fold (\<lambda>i w. w[(ds + n - 1) - i := F i]) [0..<n - 1] w1"
  have W: "?W = fold (\<lambda>i w. w[i := 0]) [0..<ds] (w2[ds := push_bit lbs (u ! 0)])"
    unfolding w2_def F_def desc_index ..
  have w2: "w2 ! j = (if ds < j \<and> j \<le> ds + n - 1 then F (ds + n - 1 - j) else w1 ! j)" for j
  proof -
    have a: "n - 1 \<le> ds + n - 1" by simp
    have b: "ds + n - 1 < length w1" using n(1) len by linarith
    have c: "ds + n - 1 - (n - 1) = ds" using n(1) by linarith
    show ?thesis
      unfolding w2_def fold_upd_desc_nth [OF a b] c ..
  qed
  have lw2: "length w2 = n + ds + t"
    by (simp add: w2_def len)
  have Wk: "?W ! k = (if k < ds then 0 else if k = ds then push_bit lbs (u ! 0) else w2 ! k)"
  proof -
    have "ds < length w2" using lw2 n(1) by linarith
    then show ?thesis
      unfolding W by (simp add: fold_zero_nth nth_list_update)
  qed
  have Rk: "?R ! k = (if k < ds then 0 else if k - ds < n then shl_digit lbs u (k - ds)
                       else w1 ! k)"
    using k len by (auto simp: nth_append)
  consider "k < ds" | "k = ds" | "ds < k" "k < ds + n" | "k = ds + n" "t = 1"
    using k t by linarith
  then show "?W ! k = ?R ! k"
  proof cases
    case 1
    then show ?thesis
      unfolding Wk Rk by simp
  next
    case 2
    then show ?thesis
      unfolding Wk Rk using n by (simp add: shl_digit_def)
  next
    case 3
    then have c: "\<not> k < ds" "k \<noteq> ds" "ds < k \<and> k \<le> ds + n - 1" "k - ds < n"
      by linarith+
    have i: "n - (ds + n - 1 - k) - 1 = k - ds" "n - (ds + n - 1 - k) - 2 = k - ds - 1" "0 < k - ds"
      using 3 by linarith+
    have "F (ds + n - 1 - k) = shl_digit lbs u (k - ds)"
      unfolding F_def shl_digit_def i(1,2) using c(4) n(2) 3(1) by simp
    then show ?thesis
      unfolding Wk Rk w2 using c by simp
  next
    case 4
    then have c: "\<not> k < ds" "k \<noteq> ds" "\<not> (ds < k \<and> k \<le> ds + n - 1)" "\<not> k - ds < n"
      using n(1) by linarith+
    show ?thesis
      unfolding Wk Rk w2 using c by simp
  qed
qed

lemma unat_shl_digit:
  assumes "0 < lbs" "lbs < 32" "k < length u"
  shows "unat (shl_digit lbs u k)
         = (unat (u ! k) * 2 ^ lbs) mod base
           + (if k = 0 then 0 else unat (u ! (k - 1)) div 2 ^ (32 - lbs))"
proof (cases "k = 0")
  case True
  then show ?thesis
    using assms by (simp add: shl_digit_def unat_push_bit_digit)
next
  case False
  have "lbs + (32 - lbs) = 32" using assms by simp
  from unat_push_or_drop [OF this] show ?thesis
    using False assms by (simp add: shl_digit_def)
qed

lemma shift_split:
  assumes "lbs + rbs = 32"
  shows "x * 2 ^ lbs = (x * 2 ^ lbs) mod base + base * (x div 2 ^ rbs)"
proof -
  have b: "base = 2 ^ lbs * 2 ^ rbs"
    using assms by (rule base_split)
  have "(x * 2 ^ lbs) div base = x div 2 ^ rbs"
    unfolding b by (simp add: mult.commute [of x])
  then show ?thesis
    by (metis mod_mult_div_eq mult.commute add.commute mult_div_mod_eq)
qed

lemma nat_of_shl_digits:
  assumes "0 < lbs" "lbs < 32" "k \<le> length u"
  shows "nat_of (map (shl_digit lbs u) [0..<k])
           + base ^ k * (if k = 0 then 0 else unat (u ! (k - 1)) div 2 ^ (32 - lbs))
         = nat_of (take k u) * 2 ^ lbs"
  using assms(3)
proof (induction k)
  case 0
  show ?case by simp
next
  case (Suc k)
  then have k: "k < length u" by simp
  define c where "c = (if k = 0 then 0 else unat (u ! (k - 1)) div 2 ^ (32 - lbs))"
  have ih: "nat_of (map (shl_digit lbs u) [0..<k]) + base ^ k * c = nat_of (take k u) * 2 ^ lbs"
    using Suc k by (simp add: c_def)
  have d: "unat (shl_digit lbs u k) = (unat (u ! k) * 2 ^ lbs) mod base + c"
    unfolding c_def by (rule unat_shl_digit [OF assms(1,2) k])
  have s: "unat (u ! k) * 2 ^ lbs
           = (unat (u ! k) * 2 ^ lbs) mod base + base * (unat (u ! k) div 2 ^ (32 - lbs))"
    by (rule shift_split) (use assms in simp)
  have "nat_of (map (shl_digit lbs u) [0..<Suc k]) + base ^ Suc k * (unat (u ! k) div 2 ^ (32 - lbs))
        = nat_of (map (shl_digit lbs u) [0..<k]) + base ^ k * c
          + base ^ k * ((unat (u ! k) * 2 ^ lbs) mod base + base * (unat (u ! k) div 2 ^ (32 - lbs)))"
    by (simp add: nat_of_snoc d algebra_simps)
  also have "\<dots> = nat_of (take k u) * 2 ^ lbs + base ^ k * (unat (u ! k) * 2 ^ lbs)"
    unfolding ih s [symmetric] ..
  also have "\<dots> = nat_of (take (Suc k) u) * 2 ^ lbs"
    using k by (simp add: nat_of_take_Suc algebra_simps)
  finally show ?case
    by simp
qed

lemma nat_of_shl_digits_top:
  assumes "0 < lbs" "lbs < 32" "u \<noteq> []"
  shows "nat_of (map (shl_digit lbs u) [0..<length u] @ [drop_bit (32 - lbs) (u ! (length u - 1))])
         = nat_of u * 2 ^ lbs"
  using nat_of_shl_digits [OF assms(1,2), of "length u"] assms(3)
  by (simp add: nat_of_snoc unat_drop_bit_digit)

section \<open>Left shift\<close>

lemma shl_whole_loops:
  assumes "length w1 = length u + ds"
  shows "fold (\<lambda>i w. w[i := 0]) [0..<ds] (fold (\<lambda>i w. w[i + ds := u ! i]) [0..<length u] w1)
         = replicate ds 0 @ u"
    (is "?W = ?R")
proof (rule nth_equalityI)
  show "length ?W = length ?R"
    using assms by simp
  fix k
  assume "k < length ?W"
  then have k: "k < length u + ds"
    using assms by simp
  have a: "ds + length u \<le> length w1"
    using assms by simp
  have "?W ! k = (if k < ds then 0 else u ! (k - ds))"
    using k assms by (simp add: fold_zero_nth fold_upd_asc_nth [OF a])
  also have "\<dots> = ?R ! k"
    by (simp add: nth_append)
  finally show "?W ! k = ?R ! k" .
qed

lemma Unsigned_shl_whole:
  assumes "u \<noteq> []" "0 < s" "s mod 32 = 0"
  shows "Unsigned_shl u s = replicate (s div 32) 0 @ u"
proof -
  have c: "s \<noteq> 0" "length u \<noteq> 0"
    using assms by simp_all
  have "Unsigned_shl u s
        = fold (\<lambda>i w. w[i := 0]) [0..<s div 32]
            (fold (\<lambda>i w. w[i + s div 32 := u ! i]) [0..<length u] (resize (length u + s div 32) []))"
    by (simp only: Unsigned_shl_def Let_def c assms(3) if_False if_True refl)
  also have "\<dots> = replicate (s div 32) 0 @ u"
    by (rule shl_whole_loops) simp
  finally show ?thesis .
qed

lemma drop_resize_top: "drop k ((resize (Suc k) [])[k := x]) = [x]"
proof (rule nth_equalityI)
  show "length (drop k ((resize (Suc k) [])[k := x])) = length [x]"
    by simp
  fix i
  assume "i < length (drop k ((resize (Suc k) [])[k := x]))"
  then have i: "i = 0" by simp
  have "k < length (resize (Suc k) [])" by simp
  then show "drop k ((resize (Suc k) [])[k := x]) ! i = [x] ! i"
    unfolding i by (simp del: length_resize)
qed

lemma Unsigned_shl_bits:
  assumes "u \<noteq> []" "s mod 32 \<noteq> 0"
  shows "Unsigned_shl u s
         = replicate (s div 32) 0 @ map (shl_digit (s mod 32) u) [0..<length u]
           @ (if Unsigned_countLeadingZeroes u < s mod 32
              then [drop_bit (32 - s mod 32) (u ! (length u - 1))] else [])"
proof -
  have c: "s \<noteq> 0" "length u \<noteq> 0"
    using assms by auto
  have n: "0 < length u" "length u = length u" using assms(1) by simp_all
  define w1 where "w1 = (if Unsigned_countLeadingZeroes u < s mod 32
      then (resize (length u + s div 32 + 1) [])
             [length u + s div 32 := drop_bit (32 - s mod 32) (u ! (length u - 1))]
      else resize (length u + s div 32) [])"
  define t :: nat where "t = (if Unsigned_countLeadingZeroes u < s mod 32 then 1 else 0)"
  have l: "length w1 = length u + s div 32 + t" and t: "t \<le> 1"
    by (simp_all add: w1_def t_def)
  have d: "drop (length u + s div 32) w1
           = (if Unsigned_countLeadingZeroes u < s mod 32
              then [drop_bit (32 - s mod 32) (u ! (length u - 1))] else [])"
    by (simp add: w1_def drop_resize_top)
  have "Unsigned_shl u s
        = fold (\<lambda>i w. w[i := 0]) [0..<s div 32]
           ((fold (\<lambda>i w. w[s div 32 + length u - i - 1 :=
                              push_bit (s mod 32) (u ! (length u - i - 1))
                              OR drop_bit (32 - s mod 32) (u ! (length u - i - 2))])
               [0..<length u - 1] w1)[s div 32 := push_bit (s mod 32) (u ! 0)])"
    by (simp only: Unsigned_shl_def Let_def c assms(2) if_False w1_def)
  also have "\<dots> = replicate (s div 32) 0 @ map (shl_digit (s mod 32) u) [0..<length u]
                     @ drop (length u + s div 32) w1"
    by (rule shl_loops_closed [OF n l t])
  finally show ?thesis
    unfolding d .
qed

text \<open>The bit length of a number.\<close>

lemma top_digit_bounds:
  assumes "u \<noteq> []" "normalized u"
  shows "Unsigned_countLeadingZeroes u < 32"
    and "unat (u ! (length u - 1)) * 2 ^ Unsigned_countLeadingZeroes u < base"
    and "base \<le> 2 * (unat (u ! (length u - 1)) * 2 ^ Unsigned_countLeadingZeroes u)"
proof -
  have t: "u ! (length u - 1) \<noteq> 0"
    using assms by (simp add: normalized_def last_conv_nth)
  have c: "Unsigned_countLeadingZeroes u = countLeadingZeroes (u ! (length u - 1))"
    using assms(1) by (simp add: Unsigned_countLeadingZeroes_def)
  show "Unsigned_countLeadingZeroes u < 32"
    unfolding c by (rule countLeadingZeroes_spec [OF t])
  show "unat (u ! (length u - 1)) * 2 ^ Unsigned_countLeadingZeroes u < base"
    unfolding c by (rule countLeadingZeroes_spec [OF t])
  show "base \<le> 2 * (unat (u ! (length u - 1)) * 2 ^ Unsigned_countLeadingZeroes u)"
    unfolding c by (rule countLeadingZeroes_spec [OF t])
qed

lemma base_power: "base ^ k = 2 ^ (32 * k)"
  by (simp add: base_def power_mult)

lemma nat_of_last:
  "u \<noteq> [] \<Longrightarrow> nat_of u = nat_of (butlast u) + base ^ (length u - 1) * unat (u ! (length u - 1))"
proof -
  assume u: "u \<noteq> []"
  then have "nat_of u = nat_of (butlast u @ [last u])"
    by simp
  also have "\<dots> = nat_of (butlast u) + base ^ length (butlast u) * unat (last u)"
    by (rule nat_of_snoc)
  finally show ?thesis
    using u by (simp add: last_conv_nth)
qed

lemma Unsigned_bits_bounds:
  assumes "u \<noteq> []" "normalized u"
  shows "0 < Unsigned_bits u"
    and "nat_of u < 2 ^ Unsigned_bits u"
    and "2 ^ (Unsigned_bits u - 1) \<le> nat_of u"
proof -
  define n where "n = length u"
  define lz where "lz = Unsigned_countLeadingZeroes u"
  define t where "t = unat (u ! (length u - 1))"
  note tb = top_digit_bounds [OF assms, folded lz_def t_def]
  have n: "0 < n" using assms(1) by (simp add: n_def)
  have bits: "Unsigned_bits u = 32 * n - lz"
    by (simp add: Unsigned_bits_def n_def lz_def)
  have e1: "32 * n - lz = 32 * (n - 1) + (32 - lz)"
    using n tb(1) by linarith
  have e2: "32 * n - lz - 1 = 32 * (n - 1) + (31 - lz)"
    using n tb(1) by linarith
  show "0 < Unsigned_bits u"
    unfolding bits using n tb(1) by linarith
  have v: "nat_of u = nat_of (butlast u) + base ^ (n - 1) * t"
    unfolding n_def t_def by (rule nat_of_last [OF assms(1)])
  have "t * 2 ^ lz < 2 ^ (32 - lz) * 2 ^ lz"
    using tb(1,2) by (simp add: base_def flip: power_add)
  then have "t < 2 ^ (32 - lz)" by simp
  then have "t + 1 \<le> 2 ^ (32 - lz)" by simp
  then have "base ^ (n - 1) * (t + 1) \<le> base ^ (n - 1) * 2 ^ (32 - lz)"
    by (rule mult_le_mono2)
  moreover have "nat_of (butlast u) < base ^ (n - 1)"
    using nat_of_lt [of "butlast u"] by (simp add: n_def)
  ultimately have "nat_of u < base ^ (n - 1) * 2 ^ (32 - lz)"
    unfolding v by simp
  then show "nat_of u < 2 ^ Unsigned_bits u"
    unfolding bits e1 base_power power_add .
  have "(2::nat) ^ (1 + (31 - lz) + lz) = base"
    using tb(1) by (simp add: base_def)
  then have "2 * (2 ^ (31 - lz) * 2 ^ lz) = base"
    by (simp only: power_add power_one_right mult.assoc)
  then have "2 * (2 ^ (31 - lz) * 2 ^ lz) \<le> 2 * (t * 2 ^ lz)"
    using tb(3) by simp
  then have "2 ^ (31 - lz) * 2 ^ lz \<le> t * (2::nat) ^ lz"
    by simp
  then have "2 ^ (31 - lz) \<le> t"
    by simp
  then have "base ^ (n - 1) * 2 ^ (31 - lz) \<le> base ^ (n - 1) * t"
    by (rule mult_le_mono2)
  then have "base ^ (n - 1) * 2 ^ (31 - lz) \<le> nat_of u"
    unfolding v by (rule trans_le_add2)
  then show "2 ^ (Unsigned_bits u - 1) \<le> nat_of u"
    unfolding bits e2 base_power power_add .
qed

lemma normalizedI:
  assumes "u \<noteq> []" "base ^ (length u - 1) \<le> nat_of u"
  shows "normalized u"
proof (rule ccontr)
  assume "\<not> normalized u"
  then have "u ! (length u - 1) = 0"
    using assms(1) by (simp add: normalized_def last_conv_nth)
  then have "nat_of u = nat_of (butlast u)"
    using nat_of_last [OF assms(1)] by simp
  then have "nat_of u < base ^ (length u - 1)"
    using nat_of_lt [of "butlast u"] by simp
  then show False
    using assms(2) by simp
qed

lemma drop_top_zero:
  assumes "u \<noteq> []" "\<not> Unsigned_countLeadingZeroes u < lbs" "lbs < 32"
  shows "drop_bit (32 - lbs) (u ! (length u - 1)) = 0"
proof (cases "u ! (length u - 1) = 0")
  case True
  then show ?thesis by simp
next
  case False
  define lz where "lz = countLeadingZeroes (u ! (length u - 1))"
  define t where "t = unat (u ! (length u - 1))"
  have lz: "lbs \<le> lz"
    using assms by (simp add: Unsigned_countLeadingZeroes_def lz_def)
  note cs = countLeadingZeroes_spec [OF False, folded lz_def t_def]
  have "t * 2 ^ lz < 2 ^ (32 - lz) * 2 ^ lz"
    using cs(1,3) by (simp add: base_def flip: power_add)
  then have "t < 2 ^ (32 - lz)" by simp
  also have "\<dots> \<le> 2 ^ (32 - lbs)"
    using lz by (simp add: power_increasing)
  finally have "t div 2 ^ (32 - lbs) = 0" by simp
  then show ?thesis
    by (simp add: t_def unat_drop_bit_digit flip: unat_eq_zero)
qed

theorem nat_of_Unsigned_shl: "nat_of (Unsigned_shl u s) = nat_of u * 2 ^ s"
proof (cases "u = [] \<or> s = 0")
  case True
  then show ?thesis
    by (auto simp: Unsigned_shl_def)
next
  case False
  then have u: "u \<noteq> []" and s: "0 < s" by simp_all
  have sp: "(2::nat) ^ s = 2 ^ (s mod 32) * base ^ (s div 32)"
    by (simp add: base_power flip: power_add)
  show ?thesis
  proof (cases "s mod 32 = 0")
    case True
    show ?thesis
      unfolding Unsigned_shl_whole [OF u s True] sp
      by (simp add: nat_of_append True)
  next
    case False
    then have l: "0 < s mod 32" "s mod 32 < 32" by simp_all
    have "nat_of (map (shl_digit (s mod 32) u) [0..<length u]
           @ (if Unsigned_countLeadingZeroes u < s mod 32
              then [drop_bit (32 - s mod 32) (u ! (length u - 1))] else []))
          = nat_of (map (shl_digit (s mod 32) u) [0..<length u]
                    @ [drop_bit (32 - s mod 32) (u ! (length u - 1))])"
      using drop_top_zero [OF u _ l(2)] by (simp add: nat_of_append)
    also have "\<dots> = nat_of u * 2 ^ (s mod 32)"
      by (rule nat_of_shl_digits_top [OF l u])
    finally show ?thesis
      unfolding Unsigned_shl_bits [OF u False] sp
      by (simp add: nat_of_append)
  qed
qed

lemma length_Unsigned_shl:
  assumes "u \<noteq> []" "0 < s"
  shows "length (Unsigned_shl u s)
         = length u + s div 32 + (if Unsigned_countLeadingZeroes u < s mod 32 then 1 else 0)"
proof (cases "s mod 32 = 0")
  case True
  then show ?thesis
    by (simp add: Unsigned_shl_whole [OF assms True])
next
  case False
  then show ?thesis
    by (simp add: Unsigned_shl_bits [OF assms(1) False])
qed

theorem normalized_Unsigned_shl:
  assumes "normalized u"
  shows "normalized (Unsigned_shl u s)"
proof (cases "u = [] \<or> s = 0")
  case True
  then show ?thesis
    using assms by (auto simp: Unsigned_shl_def)
next
  case False
  then have u: "u \<noteq> []" and s: "0 < s" by simp_all
  define lz where "lz = Unsigned_countLeadingZeroes u"
  define n where "n = length u"
  define L where "L = length (Unsigned_shl u s)"
  note bb = Unsigned_bits_bounds [OF u assms]
  note tb = top_digit_bounds [OF u assms, folded lz_def]
  have n: "0 < n" using u by (simp add: n_def)
  have bits: "Unsigned_bits u = 32 * n - lz"
    by (simp add: Unsigned_bits_def n_def lz_def)
  have L: "L = n + s div 32 + (if lz < s mod 32 then 1 else 0)"
    unfolding L_def n_def lz_def by (rule length_Unsigned_shl [OF u s])
  have sd: "s = 32 * (s div 32) + s mod 32" by simp
  have "32 * (L - 1) \<le> 32 * n - lz - 1 + s"
  proof (cases "lz < s mod 32")
    case True
    then have "L - 1 = n + s div 32" using L by simp
    then show ?thesis
      using True tb(1) n sd by linarith
  next
    case False
    then have "L - 1 = n + s div 32 - 1" using L by simp
    then show ?thesis
      using False tb(1) n sd by linarith
  qed
  then have "(2::nat) ^ (32 * (L - 1)) \<le> 2 ^ (Unsigned_bits u - 1 + s)"
    unfolding bits by (simp add: power_increasing)
  also have "\<dots> \<le> nat_of u * 2 ^ s"
    using bb(3) by (simp add: power_add)
  finally have "base ^ (L - 1) \<le> nat_of (Unsigned_shl u s)"
    by (simp add: base_power nat_of_Unsigned_shl)
  moreover have "Unsigned_shl u s \<noteq> []"
    using L n by (auto simp: L_def)
  ultimately show ?thesis
    unfolding L_def by (intro normalizedI)
qed

section \<open>Right shift\<close>

lemma fold_upd_id_closed:
  "k \<le> length w \<Longrightarrow> fold (\<lambda>i w. w[i := f i]) [0..<k] w = map f [0..<k] @ drop k w"
proof (induction k)
  case 0
  show ?case by simp
next
  case (Suc k)
  then have k: "k < length w" by simp
  have "(map f [0..<k] @ drop k w)[k := f k] = map f [0..<k] @ (drop k w)[0 := f k]"
    by (simp add: list_update_append)
  also have "(drop k w)[0 := f k] = f k # drop (Suc k) w"
    using k by (simp add: Cons_nth_drop_Suc [symmetric])
  finally show ?case
    using Suc by simp
qed

lemma clz_le: "Unsigned_countLeadingZeroes u \<le> 32"
proof (cases "u = [] \<or> u ! (length u - 1) = 0")
  case True
  then show ?thesis
    by (auto simp: Unsigned_countLeadingZeroes_def countLeadingZeroes_def)
next
  case False
  then have "countLeadingZeroes (u ! (length u - 1)) < 32"
    by (intro countLeadingZeroes_spec) simp
  then show ?thesis
    using False by (simp add: Unsigned_countLeadingZeroes_def)
qed

lemma shr_size:
  assumes "s < length u * 32 - Unsigned_countLeadingZeroes u" "s mod 32 \<noteq> 0"
  shows "(length u * 32 - Unsigned_countLeadingZeroes u - s - 1) div 32 + 1
         = (if Unsigned_countLeadingZeroes u < 32 - s mod 32
            then length u - s div 32 else length u - s div 32 - 1)"
    and "s div 32 < length u"
    and "\<not> Unsigned_countLeadingZeroes u < 32 - s mod 32 \<Longrightarrow> s div 32 + 1 < length u"
proof -
  define lz where "lz = Unsigned_countLeadingZeroes u"
  define n where "n = length u"
  define ds where "ds = s div 32"
  define rbs where "rbs = s mod 32"
  have s: "s = 32 * ds + rbs" by (simp add: ds_def rbs_def)
  have r: "0 < rbs" "rbs < 32" using assms(2) by (simp_all add: rbs_def)
  have lz: "lz \<le> 32" unfolding lz_def by (rule clz_le)
  have a: "32 * ds + rbs + lz < n * 32"
    using assms(1) s by (simp add: lz_def n_def)
  show "s div 32 < length u"
    using a by (simp add: ds_def n_def)
  show "\<not> Unsigned_countLeadingZeroes u < 32 - s mod 32 \<Longrightarrow> s div 32 + 1 < length u"
    using a r unfolding lz_def [symmetric] rbs_def [symmetric] n_def [symmetric] ds_def [symmetric]
    by linarith
  have "(n * 32 - lz - s - 1) div 32 + 1 = (if lz < 32 - rbs then n - ds else n - ds - 1)"
  proof (cases "lz < 32 - rbs")
    case True
    then have "n * 32 - lz - s - 1 = 32 * (n - ds - 1) + (32 - (lz + rbs) - 1)"
      using a s r by linarith
    moreover have "32 - (lz + rbs) - 1 < 32" by simp
    ultimately have "(n * 32 - lz - s - 1) div 32 = n - ds - 1"
      by simp
    then show ?thesis
      using True a by simp
  next
    case False
    then have "n * 32 - lz - s - 1 = 32 * (n - ds - 2) + (64 - (lz + rbs) - 1)"
      using a s r lz by linarith
    moreover have "64 - (lz + rbs) - 1 < 32" using False by linarith
    ultimately have "(n * 32 - lz - s - 1) div 32 = n - ds - 2"
      by simp
    then show ?thesis
      using False a r by simp
  qed
  then show "(length u * 32 - Unsigned_countLeadingZeroes u - s - 1) div 32 + 1
         = (if Unsigned_countLeadingZeroes u < 32 - s mod 32
            then length u - s div 32 else length u - s div 32 - 1)"
    by (simp add: lz_def n_def ds_def rbs_def)
qed

lemma unat_shr_digit:
  assumes "0 < rbs" "rbs < 32" "k < length v"
  shows "unat (shr_digit rbs v k) * 2 ^ rbs + unat (v ! k) mod 2 ^ rbs
         = unat (v ! k)
           + base * (if k + 1 < length v then unat (v ! (k + 1)) mod 2 ^ rbs else 0)"
proof -
  have e: "(32 - rbs) + rbs = 32" using assms by simp
  have b: "base = 2 ^ rbs * 2 ^ (32 - rbs)"
    using base_split [OF e] by (simp add: mult.commute)
  have d: "unat (v ! k) div 2 ^ rbs * 2 ^ rbs + unat (v ! k) mod 2 ^ rbs = unat (v ! k)"
    by (rule div_mult_mod_eq)
  show ?thesis
  proof (cases "k + 1 < length v")
    case True
    have "shr_digit rbs v k = push_bit (32 - rbs) (v ! (k + 1)) OR drop_bit rbs (v ! k)"
      using True by (simp add: shr_digit_def or.commute)
    then have "unat (shr_digit rbs v k)
               = (unat (v ! (k + 1)) * 2 ^ (32 - rbs)) mod base + unat (v ! k) div 2 ^ rbs"
      using unat_push_or_drop [OF e] by simp
    also have "(unat (v ! (k + 1)) * 2 ^ (32 - rbs)) mod base
               = (unat (v ! (k + 1)) mod 2 ^ rbs) * 2 ^ (32 - rbs)"
      unfolding b by (rule mult_mod_left [symmetric])
    finally have "unat (shr_digit rbs v k) * 2 ^ rbs
        = (unat (v ! (k + 1)) mod 2 ^ rbs) * (2 ^ (32 - rbs) * 2 ^ rbs)
          + unat (v ! k) div 2 ^ rbs * 2 ^ rbs"
      by (simp add: algebra_simps)
    also have "2 ^ (32 - rbs) * 2 ^ rbs = base"
      using b by (simp add: mult.commute)
    finally show ?thesis
      using True d by (simp add: algebra_simps)
  next
    case False
    then show ?thesis
      using d by (simp add: shr_digit_def unat_drop_bit_digit)
  qed
qed

lemma nat_of_shr_digits_aux:
  assumes "0 < rbs" "rbs < 32" "k \<le> length v" "v \<noteq> []"
  shows "nat_of (map (shr_digit rbs v) [0..<k]) * 2 ^ rbs + unat (v ! 0) mod 2 ^ rbs
         = nat_of (take k v)
           + base ^ k * (if k < length v then unat (v ! k) mod 2 ^ rbs else 0)"
  using assms(3)
proof (induction k)
  case 0
  show ?case using assms(4) by simp
next
  case (Suc k)
  then have k: "k < length v" by simp
  define r where "r j = (if j < length v then unat (v ! j) mod 2 ^ rbs else 0)" for j
  have ih: "nat_of (map (shr_digit rbs v) [0..<k]) * 2 ^ rbs + unat (v ! 0) mod 2 ^ rbs
            = nat_of (take k v) + base ^ k * r k"
    using Suc k by (simp add: r_def)
  have d: "unat (shr_digit rbs v k) * 2 ^ rbs + r k = unat (v ! k) + base * r (Suc k)"
    using unat_shr_digit [OF assms(1,2) k] k by (simp add: r_def)
  have "nat_of (map (shr_digit rbs v) [0..<Suc k]) * 2 ^ rbs + unat (v ! 0) mod 2 ^ rbs
        = (nat_of (map (shr_digit rbs v) [0..<k]) * 2 ^ rbs + unat (v ! 0) mod 2 ^ rbs)
          + base ^ k * (unat (shr_digit rbs v k) * 2 ^ rbs)"
    by (simp add: nat_of_snoc algebra_simps)
  also have "\<dots> = nat_of (take k v) + base ^ k * (unat (shr_digit rbs v k) * 2 ^ rbs + r k)"
    unfolding ih by (simp add: algebra_simps)
  also have "\<dots> = nat_of (take k v) + base ^ k * unat (v ! k) + base ^ Suc k * r (Suc k)"
    unfolding d by (simp add: algebra_simps)
  also have "\<dots> = nat_of (take (Suc k) v) + base ^ Suc k * r (Suc k)"
    using k by (simp add: nat_of_take_Suc)
  finally show ?case
    by (simp add: r_def)
qed

lemma nat_of_shr_digits:
  assumes "0 < rbs" "rbs < 32" "v \<noteq> []"
  shows "nat_of (map (shr_digit rbs v) [0..<length v]) = nat_of v div 2 ^ rbs"
proof -
  have "nat_of (map (shr_digit rbs v) [0..<length v]) * 2 ^ rbs + unat (v ! 0) mod 2 ^ rbs
        = nat_of v"
    using nat_of_shr_digits_aux [OF assms(1,2) le_refl assms(3)] by simp
  then have "nat_of v div 2 ^ rbs
             = (nat_of (map (shr_digit rbs v) [0..<length v]) * 2 ^ rbs
                + unat (v ! 0) mod 2 ^ rbs) div 2 ^ rbs"
    by simp
  also have "\<dots> = nat_of (map (shr_digit rbs v) [0..<length v])"
    by simp
  finally show ?thesis ..
qed

lemma nat_of_drop: "nat_of (drop k u) = nat_of u div base ^ k"
proof (cases "k \<le> length u")
  case True
  have "nat_of u = nat_of (take k u) + base ^ k * nat_of (drop k u)"
    using nat_of_take_drop [of u k] True by (simp add: min_def)
  moreover have "nat_of (take k u) < base ^ k"
    using nat_of_lt [of "take k u"] True by simp
  ultimately show ?thesis
    by simp
next
  case False
  then have "length u \<le> k" by simp
  then have "base ^ length u \<le> base ^ k"
    by (simp add: power_increasing Suc_leI)
  then have "nat_of u < base ^ k"
    using nat_of_lt [of u] by simp
  then show ?thesis
    using False by simp
qed

lemma length_one_conv: "length xs = Suc 0 \<Longrightarrow> \<exists>x. xs = [x]"
  by (cases xs) auto

lemma shr_loops_closed:
  fixes u :: Unsigned
  assumes m: "m = (if tp then length u - ds else length u - ds - 1)"
    and ds: "ds < length u" "\<not> tp \<Longrightarrow> ds + 1 < length u"
    and z: "\<not> tp \<Longrightarrow> drop_bit rbs (u ! (length u - 1)) = 0"
    and w: "m \<le> length w"
  shows "take m
          (let w1 = fold (\<lambda>i w. w[i := drop_bit rbs (u ! (i + ds))
                                      OR push_bit (32 - rbs) (u ! (i + ds + 1))])
                      [0..<length u - ds - 1] w
           in if tp then w1[length u - ds - 1 := drop_bit rbs (u ! (length u - 1))] else w1)
         = map (shr_digit rbs (drop ds u)) [0..<m]"
proof -
  define n where "n = length u"
  define F where "F i = drop_bit rbs (u ! (i + ds)) OR push_bit (32 - rbs) (u ! (i + ds + 1))" for i
  have F: "F i = shr_digit rbs (drop ds u) i" if "i < n - ds - 1" for i
  proof -
    have "i + 1 < length (drop ds u)" "ds + i < length u" "ds + (i + 1) \<le> length u"
      using that by (simp_all add: n_def)
    then show ?thesis
      by (simp add: F_def shr_digit_def add.commute add.left_commute)
  qed
  have T: "drop_bit rbs (u ! (n - 1)) = shr_digit rbs (drop ds u) (n - ds - 1)"
  proof -
    have "\<not> n - ds - 1 + 1 < length (drop ds u)" "ds + (n - ds - 1) = n - 1"
      using ds(1) by (simp_all add: n_def)
    then show ?thesis
      using ds(1) by (simp add: shr_digit_def n_def)
  qed
  have le: "n - ds - 1 \<le> length w"
    using w unfolding m n_def by (cases tp) simp_all
  have w1: "fold (\<lambda>i w. w[i := F i]) [0..<n - ds - 1] w = map F [0..<n - ds - 1] @ drop (n - ds - 1) w"
    by (rule fold_upd_id_closed [OF le])
  have mapF: "map F [0..<n - ds - 1] = map (shr_digit rbs (drop ds u)) [0..<n - ds - 1]"
    using F by simp
  show ?thesis
  proof (cases tp)
    case True
    then have mm: "m = Suc (n - ds - 1)"
      using m ds(1) by (simp add: n_def)
    then have lt: "n - ds - 1 < length w"
      using w by simp
    have "(map F [0..<n - ds - 1] @ drop (n - ds - 1) w)[n - ds - 1 := drop_bit rbs (u ! (n - 1))]
          = map F [0..<n - ds - 1] @ (drop (n - ds - 1) w)[0 := drop_bit rbs (u ! (n - 1))]"
      by (simp add: list_update_append)
    also have "(drop (n - ds - 1) w)[0 := drop_bit rbs (u ! (n - 1))]
               = drop_bit rbs (u ! (n - 1)) # drop (Suc (n - ds - 1)) w"
      using lt by (simp add: Cons_nth_drop_Suc [symmetric])
    finally show ?thesis
      using True unfolding Let_def F_def [symmetric] n_def [symmetric] w1 mm mapF T by simp
  next
    case False
    then have mm: "m = n - ds - 1"
      using m by (simp add: n_def)
    show ?thesis
      using False unfolding Let_def F_def [symmetric] n_def [symmetric] w1 mm mapF by simp
  qed
qed

lemma nb_bits: "length u * 32 - Unsigned_countLeadingZeroes u = Unsigned_bits u"
  by (simp add: Unsigned_bits_def mult.commute)

lemma Unsigned_shr_zero:
  assumes "normalized u" "Unsigned_bits u \<le> s"
  shows "Unsigned_shr u s = []"
proof (cases "u = []")
  case True
  then show ?thesis
    by (simp add: Unsigned_shr_def)
next
  case False
  then have "0 < s"
    using Unsigned_bits_bounds(1) [OF False assms(1)] assms(2) by simp
  then show ?thesis
    using False assms(2) by (simp add: Unsigned_shr_def Let_def nb_bits)
qed

lemma map_nth_drop: "ds \<le> length u \<Longrightarrow> map (\<lambda>i. u ! (ds + i)) [0..<length u - ds] = drop ds u"
  by (rule nth_equalityI) simp_all

lemma Unsigned_shr_whole:
  assumes "u \<noteq> []" "0 < s" "s < Unsigned_bits u" "s mod 32 = 0"
  shows "Unsigned_shr u s = drop (s div 32) u"
proof -
  have c: "s \<noteq> 0" "length u \<noteq> 0" "\<not> length u * 32 - Unsigned_countLeadingZeroes u \<le> s"
    using assms by (simp_all add: nb_bits)
  have "s < 32 * length u"
    using assms(3) by (simp add: Unsigned_bits_def)
  then have ds: "s div 32 \<le> length u"
    by simp
  have "Unsigned_shr u s
        = fold (\<lambda>i w. w[i := u ! (s div 32 + i)]) [0..<length u - s div 32]
            (resize (length u - s div 32) [])"
    by (simp only: Unsigned_shr_def Let_def c assms(4) if_False if_True refl)
  also have "\<dots> = map (\<lambda>i. u ! (s div 32 + i)) [0..<length u - s div 32]
                    @ drop (length u - s div 32) (resize (length u - s div 32) [])"
    by (rule fold_upd_id_closed) simp
  also have "\<dots> = drop (s div 32) u"
    using ds by (simp add: map_nth_drop)
  finally show ?thesis .
qed

lemma Unsigned_shr_bits:
  assumes "u \<noteq> []" "s < Unsigned_bits u" "s mod 32 \<noteq> 0"
  shows "Unsigned_shr u s
         = map (shr_digit (s mod 32) (drop (s div 32) u))
             [0..<(if Unsigned_countLeadingZeroes u < 32 - s mod 32
                   then length u - s div 32 else length u - s div 32 - 1)]"
proof -
  have c: "s \<noteq> 0" "length u \<noteq> 0" "\<not> length u * 32 - Unsigned_countLeadingZeroes u \<le> s"
    using assms by (auto simp: nb_bits)
  have s: "s < length u * 32 - Unsigned_countLeadingZeroes u"
    using assms(2) by (simp add: nb_bits)
  note sz = shr_size [OF s assms(3)]
  define tp where "tp = (Unsigned_countLeadingZeroes u < 32 - s mod 32)"
  define m where "m = (if tp then length u - s div 32 else length u - s div 32 - 1)"
  have z: "\<not> tp \<Longrightarrow> drop_bit (s mod 32) (u ! (length u - 1)) = 0"
    using drop_top_zero [OF assms(1), of "32 - s mod 32"] assms(3) by (simp add: tp_def)
  have "Unsigned_shr u s
        = (let w1 = fold (\<lambda>i w. w[i := drop_bit (s mod 32) (u ! (i + s div 32))
                                      OR push_bit (32 - s mod 32) (u ! (i + s div 32 + 1))])
                      [0..<length u - s div 32 - 1] (resize m [])
          in if tp then w1[length u - s div 32 - 1 := drop_bit (s mod 32) (u ! (length u - 1))]
             else w1)"
    unfolding m_def tp_def sz(1) [symmetric]
    by (simp only: Unsigned_shr_def Let_def c assms(3) if_False)
  also have "\<dots> = take m \<dots>"
    by (simp add: Let_def)
  also have "\<dots> = map (shr_digit (s mod 32) (drop (s div 32) u)) [0..<m]"
    by (rule shr_loops_closed [OF m_def sz(2)]) (use sz(3) z in \<open>simp_all add: tp_def\<close>)
  finally show ?thesis
    unfolding m_def tp_def .
qed

theorem nat_of_Unsigned_shr:
  assumes "normalized u"
  shows "nat_of (Unsigned_shr u s) = nat_of u div 2 ^ s"
proof (cases "u = [] \<or> s = 0")
  case True
  then show ?thesis
    by (auto simp: Unsigned_shr_def)
next
  case False
  then have u: "u \<noteq> []" and s0: "0 < s" by simp_all
  note bb = Unsigned_bits_bounds [OF u assms]
  show ?thesis
  proof (cases "s < Unsigned_bits u")
    case f: False
    then have "(2::nat) ^ Unsigned_bits u \<le> 2 ^ s"
      by (simp add: power_increasing)
    then have "nat_of u < 2 ^ s"
      using bb(2) by linarith
    then have "nat_of u div 2 ^ s = 0"
      by (rule div_less)
    then show ?thesis
      using f assms by (simp add: Unsigned_shr_zero)
  next
    case True
    have sp: "(2::nat) ^ s = base ^ (s div 32) * 2 ^ (s mod 32)"
      by (simp add: base_power flip: power_add)
    have dv: "nat_of u div 2 ^ s = nat_of (drop (s div 32) u) div 2 ^ (s mod 32)"
      unfolding sp nat_of_drop by (simp add: div_mult2_eq)
    show ?thesis
    proof (cases "s mod 32 = 0")
      case z: True
      show ?thesis
        unfolding Unsigned_shr_whole [OF u s0 True z] dv z by simp
    next
      case nz: False
      then have r: "0 < s mod 32" "s mod 32 < 32" by simp_all
      have sb: "s < length u * 32 - Unsigned_countLeadingZeroes u"
        using True by (simp add: nb_bits)
      note sz = shr_size [OF sb nz]
      define v where "v = drop (s div 32) u"
      have v: "v \<noteq> []" "length v = length u - s div 32"
        using sz(2) by (simp_all add: v_def)
      have full: "nat_of (map (shr_digit (s mod 32) v) [0..<length v]) = nat_of v div 2 ^ (s mod 32)"
        by (rule nat_of_shr_digits [OF r v(1)])
      show ?thesis
      proof (cases "Unsigned_countLeadingZeroes u < 32 - s mod 32")
        case tp: True
        show ?thesis
          unfolding Unsigned_shr_bits [OF u True nz] dv
          using tp full by (simp add: v_def)
      next
        case ntp: False
        have l: "length v = Suc (length v - 1)"
          using v by (cases v) auto
        have "shr_digit (s mod 32) v (length v - 1) = drop_bit (s mod 32) (u ! (length u - 1))"
          using v sz(2) by (simp add: shr_digit_def v_def)
        also have "\<dots> = 0"
          using drop_top_zero [OF u, of "32 - s mod 32"] ntp r by simp
        finally have z: "shr_digit (s mod 32) v (length v - 1) = 0" .
        have "[0..<length v] = [0..<length v - 1] @ [length v - 1]"
          using l by (metis upt_Suc_append zero_le)
        then have "map (shr_digit (s mod 32) v) [0..<length v]
              = map (shr_digit (s mod 32) v) [0..<length v - 1] @ [0]"
          using z by simp
        then have "nat_of (map (shr_digit (s mod 32) v) [0..<length v])
              = nat_of (map (shr_digit (s mod 32) v) [0..<length v - 1])"
          by (simp add: nat_of_snoc)
        then show ?thesis
          unfolding Unsigned_shr_bits [OF u True nz] dv
          using ntp full v(2) by (simp add: v_def)
      qed
    qed
  qed
qed

lemma length_Unsigned_shr:
  assumes "u \<noteq> []" "normalized u" "0 < s" "s < Unsigned_bits u"
  shows "length (Unsigned_shr u s) = (Unsigned_bits u - s - 1) div 32 + 1"
proof (cases "s mod 32 = 0")
  case True
  note tb = top_digit_bounds(1) [OF assms(1,2)]
  define lz where "lz = Unsigned_countLeadingZeroes u"
  have b: "Unsigned_bits u = 32 * length u - lz"
    by (simp add: Unsigned_bits_def lz_def)
  have s: "s = 32 * (s div 32)"
    using True by auto
  have "32 * (s div 32) + lz < 32 * length u"
    using assms(4) s b by linarith
  then have "Unsigned_bits u - s - 1 = 32 * (length u - s div 32 - 1) + (32 - lz - 1)"
    using b s tb unfolding lz_def [symmetric] by linarith
  moreover have "32 - lz - 1 < 32" by simp
  ultimately have "(Unsigned_bits u - s - 1) div 32 = length u - s div 32 - 1"
    by simp
  moreover have "s div 32 < length u"
    using \<open>32 * (s div 32) + lz < 32 * length u\<close> by simp
  ultimately show ?thesis
    by (simp add: Unsigned_shr_whole [OF assms(1,3,4) True])
next
  case False
  have sb: "s < length u * 32 - Unsigned_countLeadingZeroes u"
    using assms(4) by (simp add: nb_bits)
  show ?thesis
    unfolding Unsigned_shr_bits [OF assms(1,4) False]
    using shr_size(1) [OF sb False] by (simp add: nb_bits)
qed

theorem normalized_Unsigned_shr:
  assumes "normalized u"
  shows "normalized (Unsigned_shr u s)"
proof (cases "u = [] \<or> s = 0")
  case True
  then show ?thesis
    using assms by (auto simp: Unsigned_shr_def)
next
  case False
  then have u: "u \<noteq> []" and s0: "0 < s" by simp_all
  note bb = Unsigned_bits_bounds [OF u assms]
  show ?thesis
  proof (cases "s < Unsigned_bits u")
    case f: False
    then show ?thesis
      using assms by (simp add: Unsigned_shr_zero)
  next
    case True
    define nb where "nb = Unsigned_bits u"
    define L where "L = length (Unsigned_shr u s)"
    have L: "L = (nb - s - 1) div 32 + 1"
      unfolding L_def nb_def by (rule length_Unsigned_shr [OF u assms s0 True])
    then have "32 * (L - 1) \<le> nb - s - 1"
      by simp
    then have "(2::nat) ^ (32 * (L - 1)) \<le> 2 ^ (nb - s - 1)"
      by (simp add: power_increasing)
    also have "\<dots> = (2 ^ (nb - s - 1) * 2 ^ s) div 2 ^ s"
      by simp
    also have "2 ^ (nb - s - 1) * 2 ^ s = (2::nat) ^ (nb - 1)"
      using True by (simp add: nb_def flip: power_add)
    also have "2 ^ (nb - 1) div 2 ^ s \<le> nat_of u div 2 ^ s"
      using bb(3) unfolding nb_def by (rule div_le_mono)
    finally have "base ^ (L - 1) \<le> nat_of (Unsigned_shr u s)"
      by (simp add: base_power nat_of_Unsigned_shr [OF assms])
    moreover have "Unsigned_shr u s \<noteq> []"
      using L by (auto simp: L_def)
    ultimately show ?thesis
      unfolding L_def by (intro normalizedI)
  qed
qed

text \<open>C8 in the terms of the library: the shifts undo each other, on the digit stores.\<close>

theorem Unsigned_shr_shl:
  assumes "normalized u"
  shows "Unsigned_shr (Unsigned_shl u s) s = u"
proof (rule normalized_inj)
  show "normalized (Unsigned_shr (Unsigned_shl u s) s)"
    by (intro normalized_Unsigned_shr normalized_Unsigned_shl assms)
  show "normalized u"
    by (rule assms)
  show "nat_of (Unsigned_shr (Unsigned_shl u s) s) = nat_of u"
    by (simp add: nat_of_Unsigned_shr normalized_Unsigned_shl assms nat_of_Unsigned_shl)
qed

section \<open>The shifts in place\<close>

lemma shr_assign_whole_loop:
  assumes "0 < ds" "ds \<le> length u"
  shows "fold (\<lambda>i d. d[i := d ! (ds + i)]) [0..<length u - ds] u
         = map (\<lambda>i. u ! (ds + i)) [0..<length u - ds] @ drop (length u - ds) u"
proof -
  have "fold (\<lambda>i d. d[i := d ! (ds + i)]) [0..<length u - ds] u
        = fold (\<lambda>i d. d[i := u ! (ds + i)]) [0..<length u - ds] u"
  proof (rule fold_inplace_eq)
    fix i d
    assume "\<And>k. (\<And>j. j < i \<Longrightarrow> j \<noteq> k) \<Longrightarrow> d ! k = u ! k"
    then show "d ! (ds + i) = u ! (ds + i)"
      by simp
  qed
  also have "\<dots> = map (\<lambda>i. u ! (ds + i)) [0..<length u - ds] @ drop (length u - ds) u"
    by (rule fold_upd_id_closed) simp
  finally show ?thesis .
qed

lemma shr_assign_bits_loop:
  "fold (\<lambda>i d. d[i := drop_bit rbs (d ! (i + ds)) OR push_bit lbs (d ! (i + ds + 1))]) [0..<k] u
   = fold (\<lambda>i d. d[i := drop_bit rbs (u ! (i + ds)) OR push_bit lbs (u ! (i + ds + 1))]) [0..<k] u"
proof (rule fold_inplace_eq)
  fix i d
  assume a: "\<And>k. (\<And>j. j < i \<Longrightarrow> j \<noteq> k) \<Longrightarrow> d ! k = u ! k"
  have "d ! (i + ds) = u ! (i + ds)" "d ! (i + ds + 1) = u ! (i + ds + 1)"
    by (rule a, simp)+
  then show "drop_bit rbs (d ! (i + ds)) OR push_bit lbs (d ! (i + ds + 1))
             = drop_bit rbs (u ! (i + ds)) OR push_bit lbs (u ! (i + ds + 1))"
    by simp
qed

theorem Unsigned_shr_assign_eq: "Unsigned_shr_assign u s = Unsigned_shr u s"
proof (cases "u = [] \<or> s = 0")
  case True
  then show ?thesis
    by (auto simp: Unsigned_shr_def Unsigned_shr_assign_def)
next
  case False
  then have u: "u \<noteq> []" and s0: "0 < s" by simp_all
  have c0: "s \<noteq> 0" "length u \<noteq> 0" using u s0 by simp_all
  show ?thesis
  proof (cases "s < Unsigned_bits u")
    case f: False
    then show ?thesis
      using u s0 by (simp add: Unsigned_shr_def Unsigned_shr_assign_def Let_def nb_bits resize_def)
  next
    case True
    have c: "\<not> length u * 32 - Unsigned_countLeadingZeroes u \<le> s"
      using True by (simp add: nb_bits)
    have "s < 32 * length u"
      using True by (simp add: Unsigned_bits_def)
    then have ds: "s div 32 \<le> length u" "s div 32 < length u"
      by simp_all
    show ?thesis
    proof (cases "s mod 32 = 0")
      case z: True
      then have dp: "0 < s div 32"
        using s0 by (metis div_greater_zero_iff dvd_imp_le mod_0_imp_dvd zero_less_numeral)
      have "Unsigned_shr_assign u s
        = resize (length u - s div 32)
            (fold (\<lambda>i d. d[i := d ! (s div 32 + i)]) [0..<length u - s div 32] u)"
        by (simp only: Unsigned_shr_assign_def Let_def c0 c z if_False if_True refl)
      also have "\<dots> = map (\<lambda>i. u ! (s div 32 + i)) [0..<length u - s div 32]"
        unfolding shr_assign_whole_loop [OF dp ds(1)] by (simp add: resize_def)
      also have "\<dots> = drop (s div 32) u"
        using ds by (simp add: map_nth_drop)
      finally show ?thesis
        by (simp add: Unsigned_shr_whole [OF u s0 True z])
    next
      case nz: False
      have sb: "s < length u * 32 - Unsigned_countLeadingZeroes u"
        using True by (simp add: nb_bits)
      note sz = shr_size [OF sb nz]
      define tp where "tp = (Unsigned_countLeadingZeroes u < 32 - s mod 32)"
      define m where "m = (if tp then length u - s div 32 else length u - s div 32 - 1)"
      define d1 where "d1 = fold (\<lambda>i d. d[i := drop_bit (s mod 32) (u ! (i + s div 32))
                                      OR push_bit (32 - s mod 32) (u ! (i + s div 32 + 1))])
                      [0..<length u - s div 32 - 1] u"
      have z: "\<not> tp \<Longrightarrow> drop_bit (s mod 32) (u ! (length u - 1)) = 0"
        using drop_top_zero [OF u, of "32 - s mod 32"] nz by (simp add: tp_def)
      have ml: "m \<le> length u"
        by (simp add: m_def)
      have ld: "length d1 = length u"
        by (simp add: d1_def)
      have top: "d1 ! (length u - 1) = u ! (length u - 1)"
        unfolding d1_def by (rule fold_upd_nth_other) linarith
      have "Unsigned_shr_assign u s
        = resize m (if tp then d1[length u - s div 32 - 1 := drop_bit (s mod 32) (d1 ! (length u - 1))]
                    else d1)"
        unfolding m_def tp_def sz(1) [symmetric] d1_def shr_assign_bits_loop [symmetric]
        by (simp only: Unsigned_shr_assign_def Let_def c0 c nz if_False)
      also have "\<dots> = take m (let w1 = d1 in
                     if tp then w1[length u - s div 32 - 1 := drop_bit (s mod 32) (u ! (length u - 1))]
                     else w1)"
        using ml top ld by (simp add: resize_def Let_def)
      also have "\<dots> = map (shr_digit (s mod 32) (drop (s div 32) u)) [0..<m]"
        unfolding d1_def
        by (rule shr_loops_closed [OF m_def sz(2)]) (use sz(3) z ml in \<open>simp_all add: tp_def\<close>)
      finally show ?thesis
        by (simp add: Unsigned_shr_bits [OF u True nz] m_def tp_def)
    qed
  qed
qed

lemma nth_resize: "k < length u \<Longrightarrow> k < n \<Longrightarrow> resize n u ! k = u ! k"
  by (simp add: resize_def nth_append)

lemma shl_assign_whole_loop:
  assumes "length u \<le> ds" "length d1 = length u + ds" "\<And>k. k < length u \<Longrightarrow> d1 ! k = u ! k"
  shows "fold (\<lambda>i d. d[i + ds := d ! i]) [0..<length u] d1
         = fold (\<lambda>i w. w[i + ds := u ! i]) [0..<length u] d1"
proof -
  have "fold (\<lambda>i d. d[i + ds := d ! i]) [0..<length u] d1
        = fold (\<lambda>i d. d[i + ds := d1 ! i]) [0..<length u] d1"
  proof (rule fold_inplace_eq)
    fix i d
    assume i: "i < length u"
      and a: "\<And>k. (\<And>j. j < i \<Longrightarrow> j + ds \<noteq> k) \<Longrightarrow> d ! k = d1 ! k"
    show "d ! i = d1 ! i"
      by (rule a) (use i assms(1) in linarith)
  qed
  also have "\<dots> = fold (\<lambda>i w. w[i + ds := u ! i]) [0..<length u] d1"
    by (rule fold_cong) (simp_all add: assms(3))
  finally show ?thesis .
qed

lemma shl_assign_bits_loop:
  assumes "\<And>k. k < length u \<Longrightarrow> d1 ! k = u ! k" "n = length u"
  shows "fold (\<lambda>i d. d[ds + n - i - 1 :=
                          push_bit lbs (d ! (n - i - 1)) OR drop_bit rbs (d ! (n - i - 2))])
           [0..<n - 1] d1
         = fold (\<lambda>i w. w[ds + n - i - 1 :=
                          push_bit lbs (u ! (n - i - 1)) OR drop_bit rbs (u ! (n - i - 2))])
           [0..<n - 1] d1"
proof -
  have "fold (\<lambda>i d. d[ds + n - i - 1 :=
                          push_bit lbs (d ! (n - i - 1)) OR drop_bit rbs (d ! (n - i - 2))])
           [0..<n - 1] d1
        = fold (\<lambda>i d. d[ds + n - i - 1 :=
                          push_bit lbs (d1 ! (n - i - 1)) OR drop_bit rbs (d1 ! (n - i - 2))])
           [0..<n - 1] d1"
  proof (rule fold_inplace_eq)
    fix i d
    assume i: "i < n - 1"
      and a: "\<And>k. (\<And>j. j < i \<Longrightarrow> ds + n - j - 1 \<noteq> k) \<Longrightarrow> d ! k = d1 ! k"
    have "d ! (n - i - 1) = d1 ! (n - i - 1)"
      by (rule a) (use i in linarith)
    moreover have "d ! (n - i - 2) = d1 ! (n - i - 2)"
      by (rule a) (use i in linarith)
    ultimately show "push_bit lbs (d ! (n - i - 1)) OR drop_bit rbs (d ! (n - i - 2))
          = push_bit lbs (d1 ! (n - i - 1)) OR drop_bit rbs (d1 ! (n - i - 2))"
      by simp
  qed
  also have "\<dots> = fold (\<lambda>i w. w[ds + n - i - 1 :=
                          push_bit lbs (u ! (n - i - 1)) OR drop_bit rbs (u ! (n - i - 2))])
           [0..<n - 1] d1"
  proof (rule fold_cong)
    fix i
    assume "i \<in> set [0..<n - 1]"
    then have "n - i - 1 < length u" "n - i - 2 < length u"
      using assms(2) by simp_all
    then show "(\<lambda>d. d[ds + n - i - 1 :=
                   push_bit lbs (d1 ! (n - i - 1)) OR drop_bit rbs (d1 ! (n - i - 2))])
          = (\<lambda>w. w[ds + n - i - 1 :=
                   push_bit lbs (u ! (n - i - 1)) OR drop_bit rbs (u ! (n - i - 2))])"
      by (simp add: assms(1))
  qed simp_all
  finally show ?thesis .
qed

theorem Unsigned_shl_assign_eq:
  assumes "s mod 32 \<noteq> 0 \<or> length u \<le> s div 32"
  shows "Unsigned_shl_assign u s = Unsigned_shl u s"
proof (cases "u = [] \<or> s = 0")
  case True
  then show ?thesis
    by (auto simp: Unsigned_shl_def Unsigned_shl_assign_def)
next
  case False
  then have u: "u \<noteq> []" and s0: "0 < s" by simp_all
  have c0: "s \<noteq> 0" "length u \<noteq> 0" using u s0 by simp_all
  have n: "0 < length u" "length u = length u" using u by simp_all
  show ?thesis
  proof (cases "s mod 32 = 0")
    case z: True
    then have le: "length u \<le> s div 32"
      using assms by simp
    define d1 where "d1 = resize (length u + s div 32) u"
    have l: "length d1 = length u + s div 32"
      by (simp add: d1_def)
    have r: "\<And>k. k < length u \<Longrightarrow> d1 ! k = u ! k"
      by (simp add: d1_def nth_resize)
    have "Unsigned_shl_assign u s
          = fold (\<lambda>i d. d[i := 0]) [0..<s div 32]
              (fold (\<lambda>i d. d[i + s div 32 := d ! i]) [0..<length u] d1)"
      by (simp only: Unsigned_shl_assign_def Let_def c0 z if_False if_True refl d1_def)
    also have "\<dots> = fold (\<lambda>i d. d[i := 0]) [0..<s div 32]
              (fold (\<lambda>i w. w[i + s div 32 := u ! i]) [0..<length u] d1)"
      using shl_assign_whole_loop [OF le l r] by simp
    also have "\<dots> = replicate (s div 32) 0 @ u"
      by (rule shl_whole_loops [OF l])
    finally show ?thesis
      by (simp add: Unsigned_shl_whole [OF u s0 z])
  next
    case nz: False
    define rbs where "rbs = 32 - s mod 32"
    define d1 where "d1 = (if Unsigned_countLeadingZeroes u < s mod 32
        then (let d = resize (length u + s div 32 + 1) u
              in d[length u + s div 32 := drop_bit rbs (d ! (length u - 1))])
        else resize (length u + s div 32) u)"
    define t :: nat where "t = (if Unsigned_countLeadingZeroes u < s mod 32 then 1 else 0)"
    have l: "length d1 = length u + s div 32 + t" and t: "t \<le> 1"
      by (simp_all add: d1_def t_def Let_def)
    have r: "\<And>k. k < length u \<Longrightarrow> d1 ! k = u ! k"
      by (simp add: d1_def nth_resize Let_def)
    define d2 where "d2 = fold (\<lambda>i d. d[s div 32 + length u - i - 1 :=
                                    push_bit (s mod 32) (d ! (length u - i - 1))
                                    OR drop_bit rbs (d ! (length u - i - 2))])
                       [0..<length u - 1] d1"
    have e2: "d2 = fold (\<lambda>i w. w[s div 32 + length u - i - 1 :=
                                    push_bit (s mod 32) (u ! (length u - i - 1))
                                    OR drop_bit (32 - s mod 32) (u ! (length u - i - 2))])
                       [0..<length u - 1] d1"
      unfolding d2_def rbs_def by (rule shl_assign_bits_loop [OF r refl])
    have d20: "d2 ! 0 = u ! 0"
    proof -
      have "d2 ! 0 = d1 ! 0"
        unfolding e2 by (rule fold_upd_nth_other) linarith
      then show ?thesis
        using r n(1) by simp
    qed
    have d: "drop (length u + s div 32) d1
           = (if Unsigned_countLeadingZeroes u < s mod 32
              then [drop_bit (32 - s mod 32) (u ! (length u - 1))] else [])"
    proof (cases "Unsigned_countLeadingZeroes u < s mod 32")
      case True
      have a: "d1 ! (length u + s div 32) = drop_bit rbs (u ! (length u - 1))"
        using True n(1) by (simp add: d1_def Let_def nth_resize)
      have b: "length d1 = Suc (length u + s div 32)"
        using True l by (simp add: t_def)
      have "drop (length u + s div 32) d1 = [d1 ! (length u + s div 32)]"
        using b by (simp add: Cons_nth_drop_Suc [symmetric])
      then show ?thesis
        using True a by (simp add: rbs_def)
    next
      case False
      then show ?thesis
        using l by (simp add: t_def)
    qed
    have "Unsigned_shl_assign u s
          = fold (\<lambda>i d. d[i := 0]) [0..<s div 32] (d2[s div 32 := push_bit (s mod 32) (d2 ! 0)])"
      unfolding d2_def d1_def rbs_def
      by (simp only: Unsigned_shl_assign_def Let_def c0 nz if_False)
    also have "\<dots> = replicate (s div 32) 0 @ map (shl_digit (s mod 32) u) [0..<length u]
                     @ drop (length u + s div 32) d1"
      apply (simp only: d20)
      apply (simp only: e2)
      apply (rule shl_loops_closed [OF n l t])
      done
    finally show ?thesis
      unfolding d by (simp add: Unsigned_shl_bits [OF u nz])
  qed
qed

text \<open>
  C8. For every natural number \<open>u\<close> (a store without a leading zero digit) and every
  shift amount \<open>s\<close>, \<^verbatim>\<open>(u << s) >> s == u\<close> with the non-member shift operators:
  the store that comes back is \<open>u\<close> itself, \<^verbatim>\<open>operator==\<close> says so, and the store in
  between is the natural number \<open>u * 2 ^ s\<close>. Shifting \<open>u\<close> right by at least
  \<^verbatim>\<open>u.bits()\<close> gives zero, the empty store.
\<close>

theorem Unsigned_shift_inverse:
  assumes "normalized u"
  shows "Unsigned_shr (Unsigned_shl u s) s = u
         \<and> Unsigned_eq (Unsigned_shr (Unsigned_shl u s) s) u
         \<and> nat_of (Unsigned_shl u s) = nat_of u * 2 ^ s
         \<and> normalized (Unsigned_shl u s)
         \<and> (Unsigned_bits u \<le> t \<longrightarrow> Unsigned_shr u t = [] \<and> nat_of (Unsigned_shr u t) = 0)"
  using assms
  by (simp add: Unsigned_shr_shl Unsigned_eq_iff nat_of_Unsigned_shl normalized_Unsigned_shl
      Unsigned_shr_zero)

theorem Unsigned_shift_inverse_witness:
  "normalized [1, 2] \<and> Unsigned_bits [1, 2] \<le> 34
   \<and> Unsigned_shr (Unsigned_shl [1, 2] 33) 33 = [1, 2]
   \<and> Unsigned_shr [1, 2] 34 = []"
proof -
  have n: "normalized [1, 2]"
    by (simp add: normalized_def)
  have b: "Unsigned_bits [1, 2] \<le> 34"
    by code_simp
  show ?thesis
    using Unsigned_shift_inverse [OF n, of 33 34] n b by simp
qed

section \<open>Defects found by evaluation\<close>

text \<open>
  C10. \<^verbatim>\<open>operator<\<close> on \<^verbatim>\<open>Signed\<close> is claimed to be the order of the integer
  values. At \<open>u = -2\<close>, \<open>v = -1\<close> the value of \<open>u\<close> is below the value of \<open>v\<close>, and
  the code answers \<open>false\<close>: with equal signs it compares the magnitudes, also when
  both are negative.
\<close>

theorem Signed_less_negative_operands:
  "int_of (Signed_int32 (- 2)) < int_of (Signed_int32 (- 1))
   \<and> \<not> Signed_less (Signed_int32 (- 2)) (Signed_int32 (- 1))"
  by (simp add: Signed_less_def Signed_int32_def Unsigned_uint32_def int_of_def
      Unsigned_less_def base_def)

text \<open>
  C4. Every \<^verbatim>\<open>Signed\<close> that a public operation returns is claimed to have sign 0
  exactly when its magnitude is zero. \<^verbatim>\<open>div(Signed(1), Signed(2))\<close> returns the
  quotient with the empty magnitude and the sign 1: the code assigns the product of the
  operands' signs to the quotient, whatever its magnitude.
\<close>

theorem Signed_div_zero_quotient_sign:
  "Signed_invariant (Signed_int32 1) \<and> Signed_invariant (Signed_int32 2)
   \<and> Signed_div (Signed_int32 1) (Signed_int32 2)
       = Inr (\<lparr>val = [], sign = 1\<rparr>, \<lparr>val = [1], sign = 1\<rparr>)
   \<and> \<not> Signed_invariant \<lparr>val = [], sign = 1\<rparr>"
proof -
  have "Signed_div (Signed_int32 1) (Signed_int32 2)
       = Inr (\<lparr>val = [], sign = 1\<rparr>, \<lparr>val = [1], sign = 1\<rparr>)"
    by code_simp
  then show ?thesis
    by (simp add: Signed_invariant_def Signed_int32_def Unsigned_uint32_def base_def)
qed

text \<open>
  C9. \<^verbatim>\<open>u <<= s\<close> is claimed to leave in \<open>u\<close> the value of \<^verbatim>\<open>u << s\<close>, also when
  \<open>s\<close> is a non-zero multiple of the digit width. For the two digits \<open>[1, 2]\<close> and
  \<open>s = 32\<close> the operator \<^verbatim>\<open><<\<close> returns \<open>[0, 1, 2]\<close>, and \<^verbatim>\<open><<=\<close> leaves
  \<open>[0, 1, 1]\<close>: its loop copies the digits upwards starting from the lowest one, and
  overwrites the digit at index 1 before it is read.
\<close>

theorem Unsigned_shl_assign_whole_digit:
  "Unsigned_shl_assign [1, 2] 32 = [0, 1, 1]
   \<and> Unsigned_shl [1, 2] 32 = [0, 1, 2]
   \<and> nat_of (Unsigned_shl_assign [1, 2] 32) \<noteq> nat_of [1, 2] * 2 ^ 32"
proof -
  have a: "Unsigned_shl_assign [1, 2] 32 = [0, 1, 1]"
    by code_simp
  have b: "Unsigned_shl [1, 2] 32 = [0, 1, 2]"
    by code_simp
  show ?thesis
    by (simp add: a b base_def)
qed

text \<open>
  C7. \<^verbatim>\<open>powmod(u, exp, mod)\<close> is claimed to be \<open>u ^ exp mod mod\<close> for every non-zero
  modulus, and \<open>1 mod mod\<close> for the exponent 0. For the modulus 1 that is 0; the code
  returns 1 for every exponent 0, before it looks at the modulus.
\<close>

theorem powmod_exponent_zero_modulus_one:
  "powmod [23] [] [1] = Some (Inr [1])
   \<and> nat_of [1] \<noteq> nat_of [23] ^ nat_of [] mod nat_of [1]"
  by (simp add: powmod_def Unsigned_uint32_def base_def)

end
